theory Spec2Isabelle
  imports Complex_Main "HOL-Library.Sublist" "HOL-Library.Multiset" "HOL-Library.Log_Nat"
begin

section \<open>Python strings\<close>

text \<open>
  A Python \<open>str\<close> is a sequence of Unicode code points. It is modelled as a list of
  code points (natural numbers), so that \<open>len\<close>, slicing, \<open>rstrip\<close> and the regular
  expression \<open>.\<close> count what Python counts. Two texts are equal as code point lists exactly
  when their UTF-8 encodings are equal as byte sequences. ASCII literals of the source are
  written with \<open>ascii\<close>.
\<close>

type_synonym pystr = "nat list"

definition ascii :: "string \<Rightarrow> pystr" where
  "ascii s = map of_char s"

text \<open>
  A decoded JSON value, for the \<open>errors\<close> entry of a response, which the script passes
  on without looking into it.
\<close>

datatype json =
    JNull | JBool bool | JNum int | JStr pystr | JArr "json list" | JObj "(pystr \<times> json) list"

text \<open>The exceptions that the modelled part of \<open>lang_stats.py\<close> can raise.\<close>

datatype error =
    ReError                  \<comment> \<open>\<open>re.error\<close>: the replacement template is malformed\<close>
  | GroupNameError           \<comment> \<open>\<open>\g<name>\<close> with a name that is no decimal number: \<open>re.error\<close>
                                 or \<open>IndexError\<close> (unknown group name)\<close>
  | TransportError           \<comment> \<open>\<open>urlopen\<close> or \<open>json.load\<close> failed\<close>
  | RuntimeError json        \<comment> \<open>\<open>RuntimeError(payload["errors"])\<close>, with the value it carries\<close>
  | KeyError
  | AttributeError
  | TypeError
  | OverflowError
  | SystemExit pystr

section \<open>The document patcher (\<open>update_readme\<close>)\<close>

subsection \<open>Library functions used by the patcher\<close>

text \<open>
  \<open>str.isspace\<close> for one code point, as \<open>str.rstrip()\<close> with no argument uses it
  (CPython's \<open>_Py_ascii_whitespace\<close> table and \<open>_PyUnicode_IsWhitespace\<close>).
\<close>

definition isspace :: "nat \<Rightarrow> bool" where
  "isspace c \<longleftrightarrow>
     (9 \<le> c \<and> c \<le> 13) \<or> (28 \<le> c \<and> c \<le> 32) \<or> c = 133 \<or> c = 160 \<or> c = 5760 \<or>
     (8192 \<le> c \<and> c \<le> 8202) \<or> c = 8232 \<or> c = 8233 \<or> c = 8239 \<or> c = 8287 \<or> c = 12288"

definition rstrip :: "pystr \<Rightarrow> pystr" where
  "rstrip s = rev (dropWhile isspace (rev s))"

text \<open>
  \<open>Path.read_text\<close> opens the file in text mode with \<open>newline=None\<close>: universal newlines,
  every \<open>\r\n\<close> and every remaining \<open>\r\<close> is returned as \<open>\n\<close>. The argument is the decoded
  content of the file. \<open>Path.write_text\<close> writes \<open>\n\<close> as \<open>os.linesep\<close>, which is \<open>\n\<close> on
  the POSIX systems the script is run on, so writing stores the text as it is.
\<close>

fun read_text :: "pystr \<Rightarrow> pystr" where
  "read_text [] = []"
| "read_text [c] = [if c = 13 then 10 else c]"
| "read_text (c # d # r) =
     (if c = 13 \<and> d = 10 then 10 # read_text r
      else if c = 13 then 10 # read_text (d # r)
      else c # read_text (d # r))"

text \<open>The two marker literals of \<open>pattern\<close> and \<open>replacement\<close>.\<close>

definition marker_start :: pystr where
  "marker_start = ascii ''<!-- LANGUAGES:START -->''"

definition marker_end :: pystr where
  "marker_end = ascii ''<!-- LANGUAGES:END -->''"

subsection \<open>The pattern \<open><!-- LANGUAGES:START -->.*?<!-- LANGUAGES:END -->\<close> with \<open>re.DOTALL\<close>\<close>

text \<open>
  \<open>find_first n t\<close> scans \<open>t\<close> from the left for the literal \<open>n\<close> and returns the text before
  its first occurrence and the text after it.
\<close>

fun find_first :: "pystr \<Rightarrow> pystr \<Rightarrow> (pystr \<times> pystr) option" where
  "find_first n [] = (if n = [] then Some ([], []) else None)"
| "find_first n (c # cs) =
     (if prefix n (c # cs) then Some ([], drop (length n) (c # cs))
      else map_option (\<lambda>(a, b). (c # a, b)) (find_first n cs))"

text \<open>
  A match attempt at the current position: the start marker literally, then the lazy
  \<open>.*?\<close> (any characters, newlines included under \<open>DOTALL\<close>) extended one character at
  a time until the end marker matches, that is up to the first end marker after the start
  marker. The result is the matched text and the text after the match.
\<close>

definition match_here :: "pystr \<Rightarrow> (pystr \<times> pystr) option" where
  "match_here t =
     (if prefix marker_start t
      then (case find_first marker_end (drop (length marker_start) t) of
              None \<Rightarrow> None
            | Some (mid, post) \<Rightarrow> Some (marker_start @ mid @ marker_end, post))
      else None)"

text \<open>
  \<open>re.search\<close>: the match attempt is made at each position from the left, and the first
  position where it succeeds wins. The result is the text before the match, the match and
  the text after it.
\<close>

fun re_search :: "pystr \<Rightarrow> (pystr \<times> pystr \<times> pystr) option" where
  "re_search [] = None"
| "re_search (c # cs) =
     (case match_here (c # cs) of
        Some (m, post) \<Rightarrow> Some ([], m, post)
      | None \<Rightarrow> map_option (\<lambda>(a, m, p). (c # a, m, p)) (re_search cs))"

text \<open>
  The same search said in one piece, for the statements below: the region starts at the
  first start marker of the text and ends with the first end marker after that start
  marker (\<open>re_search_eq\<close> proves that \<open>re_search\<close> finds exactly this).
\<close>

definition region_of :: "pystr \<Rightarrow> (pystr \<times> pystr \<times> pystr) option" where
  "region_of t =
     (case find_first marker_start t of
        None \<Rightarrow> None
      | Some (pre, rest) \<Rightarrow>
          (case find_first marker_end rest of
             None \<Rightarrow> None
           | Some (mid, post) \<Rightarrow> Some (pre, marker_start @ mid @ marker_end, post)))"

subsection \<open>The replacement template of \<open>re.sub\<close>\<close>

text \<open>
  \<open>re.sub\<close> does not insert its replacement string as it is: a replacement that contains
  a backslash is a template, parsed by \<open>re._parser.parse_template\<close> (CPython 3.12 and
  later) before any substitution is made. The tokenizer reads a backslash together with the
  character after it.
\<close>

datatype token = Ch nat | Esc nat

fun tokenize :: "pystr \<Rightarrow> error + token list" where
  "tokenize [] = Inr []"
| "tokenize [c] = (if c = 92 then Inl ReError else Inr [Ch c])"
| "tokenize (c # d # r) =
     (if c = 92 then (case tokenize r of Inl e \<Rightarrow> Inl e | Inr ts \<Rightarrow> Inr (Esc d # ts))
      else (case tokenize (d # r) of Inl e \<Rightarrow> Inl e | Inr ts \<Rightarrow> Inr (Ch c # ts)))"

definition token_text :: "token \<Rightarrow> pystr" where
  "token_text t = (case t of Ch c \<Rightarrow> [c] | Esc c \<Rightarrow> [92, c])"

definition is_digit :: "nat \<Rightarrow> bool" where
  "is_digit c \<longleftrightarrow> 48 \<le> c \<and> c \<le> 57"

definition is_octdigit :: "nat \<Rightarrow> bool" where
  "is_octdigit c \<longleftrightarrow> 48 \<le> c \<and> c \<le> 55"

definition is_ascii_letter :: "nat \<Rightarrow> bool" where
  "is_ascii_letter c \<longleftrightarrow> (65 \<le> c \<and> c \<le> 90) \<or> (97 \<le> c \<and> c \<le> 122)"

text \<open>\<open>s.next in DIGITS\<close>, \<open>s.next in OCTDIGITS\<close>: the next token is one such character.\<close>

fun tok_digit :: "token \<Rightarrow> bool" where
  "tok_digit (Ch c) = is_digit c"
| "tok_digit (Esc c) = False"

fun tok_octdigit :: "token \<Rightarrow> bool" where
  "tok_octdigit (Ch c) = is_octdigit c"
| "tok_octdigit (Esc c) = False"

fun tok_char :: "token \<Rightarrow> nat" where
  "tok_char (Ch c) = c"
| "tok_char (Esc c) = c"

text \<open>
  \<open>getuntil(">", "group name")\<close>: the text of the tokens up to the next \<open>>\<close> and the tokens
  after it; an error when there is no \<open>>\<close> or the name is empty.
\<close>

fun getuntil :: "token list \<Rightarrow> (pystr \<times> token list) option" where
  "getuntil [] = None"
| "getuntil (t # ts) =
     (if t = Ch 62 then Some ([], ts)
      else map_option (\<lambda>(n, r). (token_text t @ n, r)) (getuntil ts))"

text \<open>
  \<open>ESCAPES\<close> of \<open>re._parser\<close>: \<open>\a \b \f \n \r \t \v \\\<close>.
\<close>

definition escapes :: "nat \<Rightarrow> nat option" where
  "escapes c =
     (if c = 97 then Some 7 else if c = 98 then Some 8 else if c = 102 then Some 12
      else if c = 110 then Some 10 else if c = 114 then Some 13 else if c = 116 then Some 9
      else if c = 118 then Some 11 else if c = 92 then Some 92 else None)"

text \<open>
  A parsed template is a list of literal pieces and references to group 0, the whole
  match (the pattern has no other group).
\<close>

datatype piece = Lit pystr | Group0

definition octal :: "nat list \<Rightarrow> nat" where
  "octal ds = foldl (\<lambda>a d. 8 * a + (d - 48)) 0 ds"

function parse_tokens :: "token list \<Rightarrow> error + piece list" where
  "parse_tokens [] = Inr []"
| "parse_tokens (Ch c # ts) =
     (case parse_tokens ts of Inl e \<Rightarrow> Inl e | Inr ps \<Rightarrow> Inr (Lit [c] # ps))"
| "parse_tokens (Esc c # ts) =
     (if c = 103 then
        \<comment> \<open>a reference to a named or numbered group\<close>
        (case ts of
           [] \<Rightarrow> Inl ReError
         | t # ts' \<Rightarrow>
             if t \<noteq> Ch 60 then Inl ReError
             else (case getuntil ts' of
                     None \<Rightarrow> Inl ReError
                   | Some (name, rest) \<Rightarrow>
                       if name = [] then Inl ReError
                       else if \<not> list_all is_digit name then Inl GroupNameError
                       else if \<not> list_all (\<lambda>d. d = 48) name then Inl ReError
                       else (case parse_tokens rest of
                               Inl e \<Rightarrow> Inl e
                             | Inr ps \<Rightarrow> Inr (Group0 # ps))))
      else if c = 48 then
        \<comment> \<open>an octal escape that starts with 0, of up to three digits\<close>
        (case ts of
           t1 # t2 # ts' \<Rightarrow>
             if tok_octdigit t1 \<and> tok_octdigit t2 then
               (case parse_tokens ts' of Inl e \<Rightarrow> Inl e
                | Inr ps \<Rightarrow> Inr (Lit [octal [tok_char t1, tok_char t2] mod 256] # ps))
             else if tok_octdigit t1 then
               (case parse_tokens (t2 # ts') of Inl e \<Rightarrow> Inl e
                | Inr ps \<Rightarrow> Inr (Lit [octal [tok_char t1]] # ps))
             else
               (case parse_tokens (t1 # t2 # ts') of Inl e \<Rightarrow> Inl e
                | Inr ps \<Rightarrow> Inr (Lit [0] # ps))
         | [t1] \<Rightarrow>
             if tok_octdigit t1 then Inr [Lit [octal [tok_char t1]]]
             else (case parse_tokens [t1] of Inl e \<Rightarrow> Inl e | Inr ps \<Rightarrow> Inr (Lit [0] # ps))
         | [] \<Rightarrow> Inr [Lit [0]])
      else if is_digit c then
        \<comment> \<open>three octal digits are a character; one or two digits are a reference to
            a group that the pattern does not have\<close>
        (case ts of
           t1 # t2 # ts' \<Rightarrow>
             if tok_digit t1 \<and> is_octdigit c \<and> tok_octdigit t1 \<and> tok_octdigit t2 then
               (if octal [c, tok_char t1, tok_char t2] > 255 then Inl ReError
                else (case parse_tokens ts' of Inl e \<Rightarrow> Inl e
                      | Inr ps \<Rightarrow> Inr (Lit [octal [c, tok_char t1, tok_char t2]] # ps)))
             else Inl ReError
         | _ \<Rightarrow> Inl ReError)
      else
        (case escapes c of
           Some e \<Rightarrow>
             (case parse_tokens ts of Inl e' \<Rightarrow> Inl e' | Inr ps \<Rightarrow> Inr (Lit [e] # ps))
         | None \<Rightarrow>
             if is_ascii_letter c then Inl ReError
             else (case parse_tokens ts of Inl e' \<Rightarrow> Inl e'
                   | Inr ps \<Rightarrow> Inr (Lit [92, c] # ps))))"
  by pat_completeness auto

lemma getuntil_shorter: "getuntil ts = Some (n, r) \<Longrightarrow> length r < Suc (length ts)"
  by (induction ts arbitrary: n r) (auto split: if_splits)

termination parse_tokens
  by (relation "measure length") (auto dest: getuntil_shorter)

definition parse_template :: "pystr \<Rightarrow> error + piece list" where
  "parse_template source =
     (case tokenize source of Inl e \<Rightarrow> Inl e | Inr ts \<Rightarrow> parse_tokens ts)"

text \<open>Expanding a parsed template for one match \<open>m\<close>.\<close>

fun expand :: "piece list \<Rightarrow> pystr \<Rightarrow> pystr" where
  "expand [] m = []"
| "expand (Lit s # ps) m = s @ expand ps m"
| "expand (Group0 # ps) m = m @ expand ps m"

lemma re_search_shorter:
  "re_search t = Some (pre, m, post) \<Longrightarrow> length post < length t"
proof (induction t arbitrary: pre)
  case Nil
  then show ?case by simp
next
  case (Cons c cs)
  show ?case
  proof (cases "match_here (c # cs)")
    case None
    with Cons.prems obtain a where "re_search cs = Some (a, m, post)"
      by auto
    from Cons.IH [OF this] show ?thesis by simp
  next
    case (Some mp)
    with Cons.prems have mh: "match_here (c # cs) = Some (m, post)"
      by (cases mp) auto
    obtain mid where ff: "find_first marker_end (drop (length marker_start) (c # cs)) = Some (mid, post)"
      using mh by (auto simp: match_here_def split: if_splits option.splits)
    have "\<And>n t a b. find_first n t = Some (a, b) \<Longrightarrow> length b \<le> length t"
    proof -
      fix n t and a b :: pystr
      show "find_first n t = Some (a, b) \<Longrightarrow> length b \<le> length t"
        by (induction t arbitrary: a) (auto split: if_splits)
    qed
    from this [OF ff] have "length post \<le> length (c # cs) - length marker_start"
      by simp
    moreover have "length marker_start = 24"
      by (simp add: marker_start_def ascii_def)
    ultimately show ?thesis by (simp del: length_greater_0_conv)
  qed
qed

text \<open>
  \<open>re.sub\<close> with \<open>count=0\<close>: every non-overlapping match, found from the left, is replaced
  by the expansion of the template; the search goes on after the end of each match.
\<close>

function sub_all :: "piece list \<Rightarrow> pystr \<Rightarrow> pystr" where
  "sub_all ps t =
     (case re_search t of
        None \<Rightarrow> t
      | Some (pre, m, post) \<Rightarrow> pre @ expand ps m @ sub_all ps post)"
  by pat_completeness auto
termination
  by (relation "measure (\<lambda>(ps, t). length t)") (auto dest: re_search_shorter)

declare sub_all.simps [simp del]

definition re_sub :: "pystr \<Rightarrow> pystr \<Rightarrow> error + pystr" where
  "re_sub repl t =
     (case parse_template repl of Inl e \<Rightarrow> Inl e | Inr ps \<Rightarrow> Inr (sub_all ps t))"

subsection \<open>\<open>update_readme\<close>\<close>

definition replacement :: "pystr \<Rightarrow> pystr" where
  "replacement new_block = marker_start @ [10] @ new_block @ [10] @ marker_end"

text \<open>
  \<open>update_readme readme new_block\<close>: \<open>readme\<close> is the content of the file, \<open>None\<close> when the
  file does not exist. The result is the content written to the file; when an exception is
  raised nothing is written.
\<close>

definition update_readme :: "pystr option \<Rightarrow> pystr \<Rightarrow> error + pystr" where
  "update_readme readme new_block =
     (let text = (case readme of Some content \<Rightarrow> read_text content | None \<Rightarrow> [])
      in if re_search text \<noteq> None
         then re_sub (replacement new_block) text
         else Inr (rstrip text @ [10, 10] @ replacement new_block @ [10]))"

text \<open>
  What a second run reads between the markers that a first run wrote: \<open>read_text\<close> of the
  body with the two line feeds around it.
\<close>

definition body_text :: "pystr \<Rightarrow> pystr" where
  "body_text new_block = read_text ([10] @ new_block @ [10])"

section \<open>Floating point numbers\<close>

text \<open>
  A Python \<open>float\<close> is an IEEE 754 binary64 number. A finite one is modelled by its sign
  bit (\<open>True\<close> for negative, so that \<open>-0.0\<close> exists) and its magnitude, an exact rational;
  every operation computes the exact result and rounds it to the nearest binary64 value,
  ties to even, as the hardware does. Infinities appear when a product overflows. No
  operation of the script produces a NaN.
\<close>

datatype pyfloat = Finite bool rat | Infinity bool

definition pow2 :: "int \<Rightarrow> rat" where
  "pow2 e = (if 0 \<le> e then 2 ^ nat e else 1 / 2 ^ nat (- e))"

definition round_half_even :: "rat \<Rightarrow> int" where
  "round_half_even x =
     (let f = \<lfloor>x\<rfloor>; d = x - of_int f
      in if d < 1 / 2 then f else if 1 / 2 < d then f + 1
         else if even f then f else f + 1)"

text \<open>
  \<open>ilog2 q\<close> is the exponent \<open>e\<close> with \<open>2^e \<le> q < 2^(e+1)\<close>, for \<open>q > 0\<close>, from the
  number of bits of an integer (\<open>floorlog 2\<close>).
\<close>

definition ilog2 :: "rat \<Rightarrow> int" where
  "ilog2 q =
     (if 1 \<le> q then int (floorlog 2 (nat \<lfloor>q\<rfloor>)) - 1
      else - int (floorlog 2 (nat (\<lceil>1 / q\<rceil> - 1))))"

text \<open>
  Rounding a magnitude to binary64: 53 significant bits for a normal number, multiples of
  \<open>2^-1074\<close> below \<open>2^-1022\<close>; \<open>None\<close> when the rounded value does not fit (overflow).
\<close>

definition round_binary64 :: "rat \<Rightarrow> rat option" where
  "round_binary64 q =
     (if q = 0 then Some 0
      else let e = max (ilog2 q) (- 1022);
               ulp = pow2 (e - 52);
               r = of_int (round_half_even (q / ulp)) * ulp
           in if pow2 1024 \<le> r then None else Some r)"

text \<open>
  \<open>a / b\<close> on two \<open>int\<close>s with \<open>b \<noteq> 0\<close>: the correctly rounded quotient, and
  \<open>OverflowError\<close> when it is too large for a float (CPython's \<open>long_true_divide\<close>).
\<close>

definition true_div :: "int \<Rightarrow> int \<Rightarrow> error + pyfloat" where
  "true_div a b =
     (case round_binary64 (of_int \<bar>a\<bar> / of_int \<bar>b\<bar>) of
        None \<Rightarrow> Inl OverflowError
      | Some m \<Rightarrow> Inr (Finite ((a < 0) \<noteq> (b < 0)) m))"

text \<open>\<open>p * k\<close> for a float \<open>p\<close> and one of the positive integer constants 100, 18, 482.\<close>

fun float_mul :: "pyfloat \<Rightarrow> nat \<Rightarrow> pyfloat" where
  "float_mul (Finite s m) k =
     (case round_binary64 (m * of_nat k) of None \<Rightarrow> Infinity s | Some r \<Rightarrow> Finite s r)"
| "float_mul (Infinity s) k = Infinity s"

text \<open>\<open>str(n)\<close> for a natural number.\<close>

fun decimal :: "nat \<Rightarrow> pystr" where
  "decimal n = (if n < 10 then [48 + n] else decimal (n div 10) @ [48 + n mod 10])"

declare decimal.simps [simp del]

definition zero_pad :: "nat \<Rightarrow> pystr \<Rightarrow> pystr" where
  "zero_pad w s = replicate (w - length s) 48 @ s"

text \<open>
  The format \<open>.1f\<close> or \<open>.2f\<close>: the exact value of the float rounded to \<open>prec\<close> decimals,
  ties to even, with the sign of the float (\<open>-0.0\<close> prints as \<open>-0.0\<close>).
\<close>

fun format_f :: "nat \<Rightarrow> pyfloat \<Rightarrow> pystr" where
  "format_f prec (Finite s m) =
     (let n = nat (round_half_even (m * 10 ^ prec))
      in (if s then [45] else []) @ decimal (n div 10 ^ prec) @
         (if prec = 0 then [] else [46] @ zero_pad prec (decimal (n mod 10 ^ prec))))"
| "format_f prec (Infinity s) = (if s then ascii ''-inf'' else ascii ''inf'')"

text \<open>\<open>round(x)\<close> with one argument: the nearest \<open>int\<close>, ties to even.\<close>

fun py_round :: "pyfloat \<Rightarrow> error + int" where
  "py_round (Finite s m) = Inr (if s then - round_half_even m else round_half_even m)"
| "py_round (Infinity s) = Inl OverflowError"

text \<open>\<open>max(0.0, x)\<close>: the first argument unless the second is greater.\<close>

fun float_max0 :: "pyfloat \<Rightarrow> pyfloat" where
  "float_max0 (Finite s m) = (if \<not> s \<and> 0 < m then Finite s m else Finite False 0)"
| "float_max0 (Infinity s) = (if s then Finite False 0 else Infinity s)"

section \<open>The renderers\<close>

definition MAX_ROWS :: nat where
  "MAX_ROWS = 10"

definition pct :: "int \<Rightarrow> int \<Rightarrow> error + pyfloat" where
  "pct size' total_bytes =
     (if total_bytes \<noteq> 0 then true_div size' total_bytes else Inr (Finite False 0))"

definition pct_str :: "pyfloat \<Rightarrow> pystr" where
  "pct_str p = format_f 1 (float_mul p 100) @ ascii ''%''"

text \<open>
  \<open>bar\<close>: \<open>filled\<close> full blocks (U+2588) and \<open>width - filled\<close> spaces; a string repeated
  a negative number of times is empty.
\<close>

definition bar :: "pyfloat \<Rightarrow> nat \<Rightarrow> error + pystr" where
  "bar p width =
     (case py_round (float_mul p width) of
        Inl e \<Rightarrow> Inl e
      | Inr filled \<Rightarrow>
          Inr (replicate (nat filled) 9608 @ replicate (nat (int width - filled)) 32))"

text \<open>\<open>"\n".join(lines)\<close>\<close>

fun join :: "pystr \<Rightarrow> pystr list \<Rightarrow> pystr" where
  "join sep [] = []"
| "join sep [x] = x"
| "join sep (x # y # r) = x @ sep @ join sep (y # r)"

subsection \<open>\<open>make_table\<close>\<close>

definition table_header :: "pystr list" where
  "table_header =
     [ascii ''### '' @ [128202] @ ascii '' Language usage'',
      [],
      ascii ''| Language | Share | Usage |'',
      ascii ''|---|---:|:---|'']"

definition table_row :: "pystr \<Rightarrow> pyfloat \<Rightarrow> error + pystr" where
  "table_row name p =
     (case bar p 18 of
        Inl e \<Rightarrow> Inl e
      | Inr b \<Rightarrow>
          Inr (ascii ''| '' @ name @ ascii '' | '' @ pct_str p @ ascii '' | `'' @ b @
               ascii ''` |''))"

text \<open>The loop of \<open>make_table\<close> over \<open>items[:MAX_ROWS]\<close>; an exception ends it.\<close>

fun table_rows :: "(pystr \<times> int) list \<Rightarrow> int \<Rightarrow> error + pystr list" where
  "table_rows [] total_bytes = Inr []"
| "table_rows ((name, size') # items) total_bytes =
     (case pct size' total_bytes of
        Inl e \<Rightarrow> Inl e
      | Inr p \<Rightarrow>
          (case table_row name p of
             Inl e \<Rightarrow> Inl e
           | Inr line \<Rightarrow>
               (case table_rows items total_bytes of
                  Inl e \<Rightarrow> Inl e
                | Inr lines \<Rightarrow> Inr (line # lines))))"

text \<open>\<open>make_table_lines\<close> is the list \<open>lines\<close> that \<open>make_table\<close> joins.\<close>

definition make_table_lines :: "(pystr \<times> int) list \<Rightarrow> int \<Rightarrow> error + pystr list" where
  "make_table_lines items total_bytes =
     (case table_rows (take MAX_ROWS items) total_bytes of
        Inl e \<Rightarrow> Inl e
      | Inr rows \<Rightarrow> Inr (table_header @ rows))"

definition make_table :: "(pystr \<times> int) list \<Rightarrow> int \<Rightarrow> error + pystr" where
  "make_table items total_bytes =
     (case make_table_lines items total_bytes of
        Inl e \<Rightarrow> Inl e
      | Inr lines \<Rightarrow> Inr (join [10] lines))"

subsection \<open>\<open>make_svg\<close>\<close>

text \<open>\<open>html.escape(s, quote=True)\<close>\<close>

definition esc_char :: "nat \<Rightarrow> pystr" where
  "esc_char c =
     (if c = 38 then ascii ''&amp;''
      else if c = 60 then ascii ''&lt;''
      else if c = 62 then ascii ''&gt;''
      else if c = 34 then ascii ''&quot;''
      else if c = 39 then ascii ''&#x27;''
      else [c])"

definition esc :: "pystr \<Rightarrow> pystr" where
  "esc s = concat (map esc_char s)"

record palette =
  bg :: pystr
  fg :: pystr
  mute :: pystr
  bar_bg :: pystr
  bar_fg :: pystr

definition palette_of :: "bool \<Rightarrow> palette" where
  "palette_of dark =
     \<lparr>bg = (if dark then ascii ''#0d1117'' else ascii ''#ffffff''),
      fg = (if dark then ascii ''#e6edf3'' else ascii ''#24292f''),
      mute = (if dark then ascii ''#8b949e'' else ascii ''#57606a''),
      bar_bg = (if dark then ascii ''#30363d'' else ascii ''#eaeef2''),
      bar_fg = (if dark then ascii ''#58a6ff'' else ascii ''#0969da'')\<rparr>"

definition font_family :: pystr where
  \<open>font_family =
     ascii ''font-family="ui-sans-serif, system-ui, -apple-system, Segoe UI, Roboto, Arial"''\<close>

definition svg_title :: pystr where
  "svg_title = ascii ''Languages used across repositories''"

text \<open>
  The four parts before the rows, with \<open>width = 740\<close>, \<open>left = 18\<close> and the \<open>height\<close>
  computed by \<open>make_svg\<close>.
\<close>

definition svg_header :: "palette \<Rightarrow> nat \<Rightarrow> pystr list" where
  \<open>svg_header pal height =
     [ascii ''<svg xmlns="http://www.w3.org/2000/svg" width="'' @ decimal 740 @
        ascii ''" height="'' @ decimal height @ ascii ''" viewBox="0 0 '' @ decimal 740 @
        ascii '' '' @ decimal height @ ascii ''">'',
      ascii ''<rect x="0" y="0" width="'' @ decimal 740 @ ascii ''" height="'' @
        decimal height @ ascii ''" rx="14" fill="'' @ bg pal @ ascii ''"/>'',
      ascii ''<text x="'' @ decimal 18 @ ascii ''" y="30" fill="'' @ fg pal @
        ascii ''" font-size="18" '' @ font_family @ ascii ''>'' @ esc svg_title @
        ascii ''</text>'',
      ascii ''<text x="'' @ decimal 18 @ ascii ''" y="48" fill="'' @ mute pal @
        ascii ''" font-size="12" '' @ font_family @
        ascii ''>GitHub Linguist byte counts</text>'']\<close>

text \<open>
  The four parts of row \<open>i\<close>: \<open>y = header_h + i * row_h\<close> with \<open>header_h = 46\<close> and
  \<open>row_h = 26\<close>; \<open>name_x = 18\<close>, \<open>pct_x = 210\<close>, \<open>bar_x = 240\<close>, \<open>bar_w = 482\<close>.
\<close>

definition svg_row :: "palette \<Rightarrow> nat \<Rightarrow> pystr \<Rightarrow> pyfloat \<Rightarrow> pystr list" where
  \<open>svg_row pal i name p =
     (let y = 46 + i * 26 in
      [ascii ''<text x="'' @ decimal 18 @ ascii ''" y="'' @ decimal (y + 17) @
         ascii ''" fill="'' @ fg pal @ ascii ''" font-size="14" '' @ font_family @
         ascii ''>'' @ esc name @ ascii ''</text>'',
       ascii ''<text x="'' @ decimal 210 @ ascii ''" y="'' @ decimal (y + 17) @
         ascii ''" fill="'' @ mute pal @ ascii ''" font-size="13" text-anchor="end" '' @
         font_family @ ascii ''>'' @ esc (pct_str p) @ ascii ''</text>'',
       ascii ''<rect x="'' @ decimal 240 @ ascii ''" y="'' @ decimal (y + 8) @
         ascii ''" width="'' @ decimal 482 @ ascii ''" height="10" rx="5" fill="'' @
         bar_bg pal @ ascii ''"/>'',
       ascii ''<rect x="'' @ decimal 240 @ ascii ''" y="'' @ decimal (y + 8) @
         ascii ''" width="'' @ format_f 2 (float_max0 (float_mul p 482)) @
         ascii ''" height="10" rx="5" fill="'' @ bar_fg pal @ ascii ''"/>''])\<close>

text \<open>The loop of \<open>make_svg\<close> over \<open>enumerate(items[:rows])\<close>, one group of parts a row.\<close>

fun svg_rows ::
  "palette \<Rightarrow> nat \<Rightarrow> (pystr \<times> int) list \<Rightarrow> int \<Rightarrow> error + pystr list list" where
  "svg_rows pal i [] total_bytes = Inr []"
| "svg_rows pal i ((name, size') # items) total_bytes =
     (case pct size' total_bytes of
        Inl e \<Rightarrow> Inl e
      | Inr p \<Rightarrow>
          (case svg_rows pal (Suc i) items total_bytes of
             Inl e \<Rightarrow> Inl e
           | Inr rs \<Rightarrow> Inr (svg_row pal i name p # rs)))"

definition make_svg_parts :: "(pystr \<times> int) list \<Rightarrow> int \<Rightarrow> bool \<Rightarrow> error + pystr list" where
  "make_svg_parts items total_bytes dark =
     (let rows = min MAX_ROWS (length items);
          height = 46 + rows * 26 + 18;
          pal = palette_of dark
      in case svg_rows pal 0 (take rows items) total_bytes of
           Inl e \<Rightarrow> Inl e
         | Inr rs \<Rightarrow> Inr (svg_header pal height @ concat rs @ [ascii ''</svg>'']))"

text \<open>\<open>make_svg\<close> returns the text that is written to \<open>out_path\<close>.\<close>

definition make_svg :: "(pystr \<times> int) list \<Rightarrow> int \<Rightarrow> bool \<Rightarrow> error + pystr" where
  "make_svg items total_bytes dark =
     (case make_svg_parts items total_bytes dark of
        Inl e \<Rightarrow> Inl e
      | Inr parts \<Rightarrow> Inr (join [10] parts))"

section \<open>The API client and the aggregation (\<open>graphql\<close>, \<open>main\<close>)\<close>

text \<open>
  The decoded response of the API is typed by the query that \<open>main\<close> sends. Where the
  script reads an entry with \<open>.get\<close> the entry may be missing or \<open>null\<close>; the other entries
  are non-null in the schema of the API and are plain fields here.
\<close>

datatype 'a field = Missing | Null | Val 'a

record lang_edge =
  node_name :: pystr
  edge_size :: int

text \<open>\<open>languages\<close> is the \<open>edges\<close> entry of the \<open>languages\<close> object of a repository.\<close>

record repo =
  repo_name :: "pystr field"
  isArchived :: "bool field"
  languages :: "lang_edge list field field"

text \<open>\<open>data["user"]["repositories"]\<close>: the nodes of a page and its \<open>pageInfo\<close>.\<close>

record page =
  nodes :: "repo list"
  hasNextPage :: bool
  endCursor :: "pystr option"

text \<open>
  The decoded response: its \<open>errors\<close> and \<open>data\<close> entries, \<open>None\<close> for an entry that the
  object does not have.
\<close>

record 'd payload =
  payload_errors :: "json option"
  payload_data :: "'d option"

text \<open>
  \<open>graphql\<close> after the request: the argument is what \<open>urlopen\<close> and \<open>json.load\<close> gave,
  an exception or the decoded payload.
\<close>

definition graphql_result :: "error + 'd payload \<Rightarrow> error + 'd" where
  "graphql_result response =
     (case response of
        Inl e \<Rightarrow> Inl e
      | Inr payload \<Rightarrow>
          (case payload_errors payload of
             Some errs \<Rightarrow> Inl (RuntimeError errs)
           | None \<Rightarrow> (case payload_data payload of None \<Rightarrow> Inl KeyError | Some d \<Rightarrow> Inr d)))"

text \<open>
  The network answers a request (token, login, cursor) with an exception or a payload
  whose data is the page of repositories, \<open>None\<close> when \<open>data\<close> or its \<open>user\<close> is \<open>null\<close>.
\<close>

type_synonym network = "pystr \<Rightarrow> pystr \<Rightarrow> pystr option \<Rightarrow> error + page option payload"

definition graphql :: "network \<Rightarrow> pystr \<Rightarrow> pystr \<Rightarrow> pystr option \<Rightarrow> error + page option" where
  "graphql net token login cursor = graphql_result (net token login cursor)"

subsection \<open>The totals\<close>

text \<open>
  \<open>totals\<close> is a \<open>defaultdict(int)\<close>: a dictionary that keeps the order in which its keys
  were first stored, modelled as an association list. \<open>totals[lang] += n\<close> adds to the value
  of a key that is there, and stores \<open>0 + n\<close> at the end for a new key.
\<close>

type_synonym totals = "(pystr \<times> int) list"

fun add_total :: "pystr \<Rightarrow> int \<Rightarrow> totals \<Rightarrow> totals" where
  "add_total l n [] = [(l, 0 + n)]"
| "add_total l n ((k, v) # r) = (if k = l then (k, v + n) # r else (k, v) # add_total l n r)"

text \<open>The inner loop over the edges of one repository.\<close>

fun add_edges :: "pystr set \<Rightarrow> lang_edge list \<Rightarrow> totals \<Rightarrow> totals" where
  "add_edges exclude_langs [] totals = totals"
| "add_edges exclude_langs (edge # edges) totals =
     (if node_name edge \<in> exclude_langs then add_edges exclude_langs edges totals
      else add_edges exclude_langs edges (add_total (node_name edge) (edge_size edge) totals))"

text \<open>
  \<open>repo.get("languages", {}).get("edges", []) or []\<close>: a \<open>languages\<close> entry that is
  \<open>null\<close> has no \<open>get\<close>.
\<close>

definition repo_edges :: "repo \<Rightarrow> error + lang_edge list" where
  "repo_edges r =
     (case languages r of
        Missing \<Rightarrow> Inr []
      | Null \<Rightarrow> Inl AttributeError
      | Val l \<Rightarrow> (case l of Missing \<Rightarrow> Inr [] | Null \<Rightarrow> Inr [] | Val edges \<Rightarrow> Inr edges))"

text \<open>The two \<open>continue\<close> tests at the head of the loop over the repositories.\<close>

definition skipped :: "pystr set \<Rightarrow> repo \<Rightarrow> bool" where
  "skipped exclude_repos r \<longleftrightarrow>
     (case repo_name r of Val name \<Rightarrow> name = [] | _ \<Rightarrow> True) \<or>
     isArchived r = Val True \<or>
     (case repo_name r of Val name \<Rightarrow> name \<in> exclude_repos | _ \<Rightarrow> False)"

definition add_repo :: "pystr set \<Rightarrow> pystr set \<Rightarrow> repo \<Rightarrow> totals \<Rightarrow> error + totals" where
  "add_repo exclude_repos exclude_langs r totals =
     (if skipped exclude_repos r then Inr totals
      else case repo_edges r of
             Inl e \<Rightarrow> Inl e
           | Inr edges \<Rightarrow> Inr (add_edges exclude_langs edges totals))"

text \<open>The loop \<open>for repo in repos["nodes"]\<close>.\<close>

fun add_nodes :: "pystr set \<Rightarrow> pystr set \<Rightarrow> repo list \<Rightarrow> totals \<Rightarrow> error + totals" where
  "add_nodes exclude_repos exclude_langs [] totals = Inr totals"
| "add_nodes exclude_repos exclude_langs (r # rs) totals =
     (case add_repo exclude_repos exclude_langs r totals of
        Inl e \<Rightarrow> Inl e
      | Inr totals' \<Rightarrow> add_nodes exclude_repos exclude_langs rs totals')"

text \<open>
  The loop \<open>while True\<close> of \<open>main\<close>: one request a page, until a page has no next page.
  A server that always announces a next page keeps the loop running for ever; the result
  is \<open>None\<close> then.
\<close>

partial_function (option) fetch_all ::
  "network \<Rightarrow> pystr \<Rightarrow> pystr \<Rightarrow> pystr set \<Rightarrow> pystr set \<Rightarrow> pystr option \<Rightarrow> totals
     \<Rightarrow> (error + totals) option" where
  "fetch_all net token owner exclude_repos exclude_langs cursor totals =
     (case graphql net token owner cursor of
        Inl e \<Rightarrow> Some (Inl e)
      | Inr d \<Rightarrow>
          (case d of
             None \<Rightarrow> Some (Inl TypeError)
           | Some repos \<Rightarrow>
               (case add_nodes exclude_repos exclude_langs (nodes repos) totals of
                  Inl e \<Rightarrow> Some (Inl e)
                | Inr totals' \<Rightarrow>
                    if \<not> hasNextPage repos then Some (Inr totals')
                    else fetch_all net token owner exclude_repos exclude_langs
                           (endCursor repos) totals')))"

subsection \<open>\<open>main\<close>\<close>

text \<open>
  \<open>sorted(totals.items(), key=lambda kv: kv[1], reverse=True)\<close>: by size, largest first;
  the sort is stable, also with \<open>reverse=True\<close>, so entries of equal size keep the order
  of the dictionary.
\<close>

definition sorted_items :: "totals \<Rightarrow> (pystr \<times> int) list" where
  "sorted_items totals = sort_key (\<lambda>kv. - snd kv) totals"

definition total_of :: "(pystr \<times> int) list \<Rightarrow> int" where
  "total_of items = sum_list (map snd items)"

definition EXCLUDE_REPOS :: "pystr set" where
  "EXCLUDE_REPOS = {}"

definition EXCLUDE_LANGS :: "pystr set" where
  "EXCLUDE_LANGS = {ascii ''Jupyter Notebook''}"

record env =
  GITHUB_TOKEN :: "pystr option"
  GITHUB_REPOSITORY_OWNER :: "pystr option"
  GITHUB_ACTOR :: "pystr option"

text \<open>The three files that \<open>main\<close> writes; \<open>None\<close> for a file that does not exist.\<close>

record files =
  languages_light :: "pystr option"
  languages_dark :: "pystr option"
  readme_md :: "pystr option"

text \<open>\<open>a or b\<close> on two results of \<open>os.environ.get\<close>.\<close>

definition py_or :: "pystr option \<Rightarrow> pystr option \<Rightarrow> pystr option" where
  "py_or a b = (case a of None \<Rightarrow> b | Some s \<Rightarrow> if s = [] then b else a)"

text \<open>
  The second half of \<open>main\<close>: the files are written one after the other, and an exception
  leaves the files written before it as they are. The result is the exception, if any,
  and the files.
\<close>

definition render :: "totals \<Rightarrow> files \<Rightarrow> error option \<times> files" where
  "render totals fs =
     (let items = sorted_items totals;
          total_bytes = total_of items
      in case make_svg items total_bytes False of
           Inl e \<Rightarrow> (Some e, fs)
         | Inr light \<Rightarrow>
             (let fs1 = fs\<lparr>languages_light := Some light\<rparr>
              in case make_svg items total_bytes True of
                   Inl e \<Rightarrow> (Some e, fs1)
                 | Inr dark \<Rightarrow>
                     (let fs2 = fs1\<lparr>languages_dark := Some dark\<rparr>
                      in case make_table items total_bytes of
                           Inl e \<Rightarrow> (Some e, fs2)
                         | Inr table \<Rightarrow>
                             (case update_readme (readme_md fs2) table of
                                Inl e \<Rightarrow> (Some e, fs2)
                              | Inr text \<Rightarrow> (None, fs2\<lparr>readme_md := Some text\<rparr>)))))"

definition main :: "env \<Rightarrow> network \<Rightarrow> files \<Rightarrow> (error option \<times> files) option" where
  "main environ net fs =
     (case GITHUB_TOKEN environ of
        None \<Rightarrow> Some (Some (SystemExit (ascii ''Missing GITHUB_TOKEN.'')), fs)
      | Some token \<Rightarrow>
          if token = [] then Some (Some (SystemExit (ascii ''Missing GITHUB_TOKEN.'')), fs)
          else
            (case py_or (GITHUB_REPOSITORY_OWNER environ) (GITHUB_ACTOR environ) of
               None \<Rightarrow> Some (Some (SystemExit (ascii ''Could not determine username.'')), fs)
             | Some owner \<Rightarrow>
                 if owner = []
                 then Some (Some (SystemExit (ascii ''Could not determine username.'')), fs)
                 else
                   (case fetch_all net token owner EXCLUDE_REPOS EXCLUDE_LANGS None [] of
                      None \<Rightarrow> None
                    | Some (Inl e) \<Rightarrow> Some (Some e, fs)
                    | Some (Inr totals) \<Rightarrow> Some (render totals fs))))"

section \<open>Auxiliary notions for the statements\<close>

text \<open>
  The edges of a repository that count: none for a skipped repository, and those whose
  language is not excluded otherwise.
\<close>

definition kept_edges :: "pystr set \<Rightarrow> pystr set \<Rightarrow> repo \<Rightarrow> lang_edge list" where
  "kept_edges exclude_repos exclude_langs r =
     (if skipped exclude_repos r then []
      else case repo_edges r of
             Inl e \<Rightarrow> []
           | Inr edges \<Rightarrow> filter (\<lambda>e. node_name e \<notin> exclude_langs) edges)"

text \<open>
  The dictionary that adding a list of edges to a dictionary \<open>m\<close> gives, said without
  an order: a language of the list gets its old value, or 0, plus the sizes of its edges.
\<close>

definition tally :: "lang_edge list \<Rightarrow> (pystr \<rightharpoonup> int) \<Rightarrow> (pystr \<rightharpoonup> int)" where
  "tally es m =
     (\<lambda>k. if k \<in> node_name ` set es
          then Some ((case m k of None \<Rightarrow> 0 | Some v \<Rightarrow> v) +
                     sum_list (map edge_size (filter (\<lambda>e. node_name e = k) es)))
          else m k)"

text \<open>A repository that the loop gets past without an exception.\<close>

definition repo_ok :: "pystr set \<Rightarrow> repo \<Rightarrow> bool" where
  "repo_ok exclude_repos r \<longleftrightarrow> skipped exclude_repos r \<or> languages r \<noteq> Null"

text \<open>The table row of a language when the share is \<open>0.0\<close>.\<close>

definition zero_row :: "pystr \<Rightarrow> pystr" where
  "zero_row name =
     ascii ''| '' @ name @ ascii '' | 0.0% | `'' @ replicate 18 32 @ ascii ''` |''"

section \<open>Properties of the document patcher\<close>

subsection \<open>The search\<close>

text \<open>
  \<open>find_first\<close> finds an occurrence, the leftmost one, and fails only when there is none.
\<close>

lemma marker_start_facts:
  "length marker_start = 24" "marker_start \<noteq> []" "10 \<notin> set marker_start"
  "13 \<notin> set marker_start" "92 \<notin> set marker_start" "last marker_start = 62"
  by (simp_all add: marker_start_def ascii_def)

lemma marker_end_facts:
  "length marker_end = 22" "marker_end \<noteq> []" "10 \<notin> set marker_end"
  "13 \<notin> set marker_end" "92 \<notin> set marker_end" "last marker_end = 62"
  by (simp_all add: marker_end_def ascii_def)

lemma find_first_prefix:
  "prefix n t \<Longrightarrow> find_first n t = Some ([], drop (length n) t)"
  by (cases t) auto

lemma find_first_step:
  "\<not> prefix n (c # cs) \<Longrightarrow>
   find_first n (c # cs) = map_option (\<lambda>(a, b). (c # a, b)) (find_first n cs)"
  by simp

lemma find_first_sound: "find_first n t = Some (a, b) \<Longrightarrow> t = a @ n @ b"
proof (induction t arbitrary: a)
  case Nil
  then show ?case by (simp split: if_splits)
next
  case (Cons c cs)
  show ?case
  proof (cases "prefix n (c # cs)")
    case True
    from find_first_prefix [OF True] Cons.prems
    have ab: "a = []" "b = drop (length n) (c # cs)" by simp_all
    from True obtain z where z: "c # cs = n @ z" by (auto simp: prefix_def)
    then have "drop (length n) (c # cs) = z" by (metis append_eq_conv_conj)
    with ab z show ?thesis by simp
  next
    case False
    from find_first_step [OF False] Cons.prems
    obtain a' where "find_first n cs = Some (a', b)" "a = c # a'"
      by auto
    with Cons.IH show ?thesis by simp
  qed
qed

lemma find_first_None: "find_first n t = None \<Longrightarrow> \<not> sublist n t"
proof (induction t)
  case Nil
  then show ?case by (simp split: if_splits)
next
  case (Cons c cs)
  then have np: "\<not> prefix n (c # cs)" and "find_first n cs = None"
    by (auto split: if_splits)
  with Cons.IH have "\<not> sublist n cs" by simp
  with np show ?case by (simp add: sublist_Cons_right)
qed

lemma find_first_sublist: "sublist n t \<Longrightarrow> find_first n t \<noteq> None"
proof (induction t)
  case Nil
  then show ?case by simp
next
  case (Cons c cs)
  then show ?case by (auto simp: sublist_Cons_right)
qed

lemma find_first_None_iff: "find_first n t = None \<longleftrightarrow> \<not> sublist n t"
proof
  show "find_first n t = None \<Longrightarrow> \<not> sublist n t" by (rule find_first_None)
  show "\<not> sublist n t \<Longrightarrow> find_first n t = None"
    using find_first_sound [of n t] by (cases "find_first n t") auto
qed

lemma find_first_minimal:
  "find_first n t = Some (a, b) \<Longrightarrow> t = a' @ n @ b' \<Longrightarrow> length a \<le> length a'"
proof (induction t arbitrary: a a')
  case Nil
  then show ?case by (simp split: if_splits)
next
  case (Cons c cs)
  show ?case
  proof (cases "prefix n (c # cs)")
    case True
    from find_first_prefix [OF True] Cons.prems(1) show ?thesis by simp
  next
    case False
    from find_first_step [OF False] Cons.prems(1)
    obtain a0 where a0: "find_first n cs = Some (a0, b)" "a = c # a0"
      by auto
    have "a' \<noteq> []"
    proof
      assume "a' = []"
      with Cons.prems(2) have "prefix n (c # cs)" by simp
      with False show False by simp
    qed
    then obtain a1 where "a' = c # a1" "cs = a1 @ n @ b'"
      using Cons.prems(2) by (cases a') auto
    with Cons.IH [OF a0(1)] a0(2) show ?thesis by simp
  qed
qed

lemma find_first_cong:
  "find_first n (a @ n @ b) = Some (a, b) \<Longrightarrow> find_first n (a @ n @ b') = Some (a, b')"
proof (induction a)
  case Nil
  have "prefix n (n @ b')" by simp
  from find_first_prefix [OF this] show ?case by simp
next
  case (Cons c a)
  show ?case
  proof (cases "prefix n (c # a @ n @ b)")
    case True
    from find_first_prefix [OF True] Cons.prems show ?thesis by simp
  next
    case False
    have "take (length n) (c # a @ n @ b) = take (length n) (c # a @ n @ b')"
      by (simp add: take_Cons')
    moreover have "\<And>t. prefix n t \<longleftrightarrow> take (length n) t = n"
      by (metis append_eq_conv_conj prefix_def append_take_drop_id)
    ultimately have np: "\<not> prefix n (c # a @ n @ b')"
      using False by simp
    from find_first_step [OF False] Cons.prems
    have "find_first n (a @ n @ b) = Some (a, b)"
      by auto
    from Cons.IH [OF this] find_first_step [OF np] show ?thesis by simp
  qed
qed

lemma find_first_skip:
  "\<not> sublist n x \<Longrightarrow> x \<noteq> [] \<Longrightarrow> last x \<notin> set n \<Longrightarrow>
   find_first n (x @ y) = map_option (\<lambda>(a, b). (x @ a, b)) (find_first n y)"
proof (induction x)
  case Nil
  then show ?case by simp
next
  case (Cons c cs)
  have np: "\<not> prefix n (c # cs @ y)"
  proof
    assume p: "prefix n (c # cs @ y)"
    have q: "prefix (c # cs) (c # cs @ y)" by simp
    show False
    proof (cases "length n \<le> length (c # cs)")
      case True
      with p q have "prefix n (c # cs)"
        using prefix_length_prefix by blast
      with Cons.prems(1) show False by (simp add: sublist_Cons_right)
    next
      case False
      with p q have "prefix (c # cs) n"
        using prefix_length_prefix by (metis nat_le_linear)
      then have "set (c # cs) \<subseteq> set n" by (auto simp: prefix_def)
      moreover have "last (c # cs) \<in> set (c # cs)" by (rule last_in_set) simp
      ultimately show False using Cons.prems(3) by blast
    qed
  qed
  show ?case
  proof (cases "cs = []")
    case True
    with find_first_step [OF np] show ?thesis
      by (cases "find_first n y") auto
  next
    case False
    from Cons.prems(1) have "\<not> sublist n cs" by (simp add: sublist_Cons_right)
    from Cons.IH [OF this False] Cons.prems(3) False find_first_step [OF np] show ?thesis
      by (cases "find_first n y") auto
  qed
qed

text \<open>\<open>re.search\<close> finds the region as \<open>region_of\<close> describes it.\<close>

lemma re_search_eq: "re_search t = region_of t"
proof (induction t)
  case Nil
  then show ?case by (simp add: region_of_def marker_start_facts)
next
  case (Cons c cs)
  show ?case
  proof (cases "prefix marker_start (c # cs)")
    case True
    note ff = find_first_prefix [OF True]
    show ?thesis
    proof (cases "find_first marker_end (drop (length marker_start) (c # cs))")
      case (Some mp)
      with True ff show ?thesis
        by (cases mp) (simp add: region_of_def match_here_def del: find_first.simps)
    next
      case None
      then have ns: "\<not> sublist marker_end (drop 24 (c # cs))"
        by (simp add: find_first_None_iff marker_start_facts)
      have "region_of cs = None"
      proof (cases "find_first marker_start cs")
        case None
        then show ?thesis by (simp add: region_of_def)
      next
        case (Some pr)
        obtain pre' rest' where pr: "pr = (pre', rest')" by (cases pr)
        with Some have "cs = pre' @ marker_start @ rest'"
          by (simp add: find_first_sound)
        then have "drop 24 (c # cs) = drop 24 (c # pre' @ marker_start) @ rest'"
          by (simp add: marker_start_facts)
        then have "suffix rest' (drop 24 (c # cs))"
          by (metis suffixI)
        with ns have "\<not> sublist marker_end rest'"
          by (metis sublist_order.order.trans suffix_imp_sublist)
        then have "find_first marker_end rest' = None"
          by (simp add: find_first_None_iff)
        with Some pr show ?thesis by (simp add: region_of_def)
      qed
      with Cons.IH have "re_search cs = None" by simp
      moreover from None True have "match_here (c # cs) = None"
        by (simp add: match_here_def)
      moreover from None ff have "region_of (c # cs) = None"
        by (simp add: region_of_def del: find_first.simps)
      ultimately show ?thesis by simp
    qed
  next
    case False
    then have mh: "match_here (c # cs) = None" by (simp add: match_here_def)
    note st = find_first_step [OF False]
    show ?thesis
    proof (cases "find_first marker_start cs")
      case None
      with st mh Cons.IH show ?thesis
        by (simp add: region_of_def del: find_first.simps)
    next
      case (Some pr)
      obtain pre' rest' where pr: "pr = (pre', rest')" by (cases pr)
      with Some st mh Cons.IH show ?thesis
        by (cases "find_first marker_end rest'")
           (auto simp add: region_of_def simp del: find_first.simps)
    qed
  qed
qed

lemma sub_all_none: "re_search t = None \<Longrightarrow> sub_all ps t = t"
  by (subst sub_all.simps) simp

lemma sub_all_some:
  "re_search t = Some (pre, m, post) \<Longrightarrow> sub_all ps t = pre @ expand ps m @ sub_all ps post"
  by (subst sub_all.simps) simp

lemma region_ofI:
  "find_first marker_start t = Some (pre, rest) \<Longrightarrow> find_first marker_end rest = Some (mid, post)
   \<Longrightarrow> re_search t = Some (pre, marker_start @ mid @ marker_end, post)"
  by (simp add: re_search_eq region_of_def)

lemma region_ofE:
  assumes "re_search t = Some (pre, m, post)"
  obtains rest mid where "find_first marker_start t = Some (pre, rest)"
    "find_first marker_end rest = Some (mid, post)" "m = marker_start @ mid @ marker_end"
    "t = pre @ m @ post"
proof -
  from assms have r: "region_of t = Some (pre, m, post)" by (simp add: re_search_eq)
  then obtain rest where a: "find_first marker_start t = Some (pre, rest)"
    by (auto simp: region_of_def split: option.splits)
  with r obtain mid where b: "find_first marker_end rest = Some (mid, post)"
    and c: "m = marker_start @ mid @ marker_end"
    by (auto simp: region_of_def split: option.splits)
  from find_first_sound [OF a] find_first_sound [OF b] c
  have "t = pre @ m @ post" by simp
  with a b c that show thesis by blast
qed

subsection \<open>Reading, stripping and the template\<close>

lemma read_text_no_cr: "13 \<notin> set (read_text x)"
  by (induction x rule: read_text.induct) auto

lemma read_text_cons: "c \<noteq> 13 \<Longrightarrow> read_text (c # b) = c # read_text b"
  by (cases b) auto

lemma read_text_ident: "13 \<notin> set x \<Longrightarrow> read_text x = x"
  by (induction x) (auto simp: read_text_cons)

lemma read_text_append_plain: "13 \<notin> set a \<Longrightarrow> read_text (a @ b) = a @ read_text b"
  by (induction a) (auto simp: read_text_cons)

lemma read_text_append:
  "a = [] \<or> last a \<noteq> 13 \<Longrightarrow> read_text (a @ b) = read_text a @ read_text b"
proof (induction a rule: read_text.induct)
  case 1
  then show ?case by simp
next
  case (2 c)
  then show ?case by (simp add: read_text_cons)
next
  case (3 c d r)
  from "3.prems" have l: "d # r = [] \<or> last (d # r) \<noteq> 13" by simp
  from "3.prems" have r: "r = [] \<or> last r \<noteq> 13" by (auto split: if_splits)
  show ?case
  proof (cases "c = 13")
    case False
    with "3.IH"(3) l show ?thesis by (simp add: read_text_cons)
  next
    case True
    show ?thesis
    proof (cases "d = 10")
      case True
      with \<open>c = 13\<close> "3.IH"(1) r show ?thesis by simp
    next
      case False
      with \<open>c = 13\<close> "3.IH"(2) l show ?thesis by simp
    qed
  qed
qed

lemma prefix_read_text:
  "prefix n (read_text x) \<Longrightarrow> 10 \<notin> set n \<Longrightarrow> prefix n x"
proof (induction x arbitrary: n rule: read_text.induct)
  case 1
  then show ?case by simp
next
  case (2 c)
  then show ?case by (cases n) (auto split: if_splits)
next
  case (3 c d r)
  show ?case
  proof (cases n)
    case Nil
    then show ?thesis by simp
  next
    case (Cons c' n')
    with "3.prems" have c': "c' \<noteq> 10" and n': "10 \<notin> set n'" by auto
    from "3.prems"(1) Cons c' have nc: "c \<noteq> 13" and cc: "c' = c"
      and p: "prefix n' (read_text (d # r))"
      by (auto split: if_splits)
    from "3.IH"(3) [OF _ nc p n'] nc have "prefix n' (d # r)" by simp
    with Cons cc show ?thesis by simp
  qed
qed

lemma sublist_read_text:
  "sublist n (read_text x) \<Longrightarrow> 10 \<notin> set n \<Longrightarrow> sublist n x"
proof (induction x rule: read_text.induct)
  case 1
  then show ?case by simp
next
  case (2 c)
  then have "prefix n [c]"
    using prefix_read_text [of n "[c]"] by (auto simp: sublist_Cons_right)
  then show ?case by (rule prefix_imp_sublist)
next
  case (3 c d r)
  from "3.prems"(1) have "prefix n (read_text (c # d # r)) \<or>
      sublist n (read_text (if c = 13 \<and> d = 10 then r else d # r))"
    by (auto simp: sublist_Cons_right split: if_splits)
  then show ?case
  proof
    assume "prefix n (read_text (c # d # r))"
    from prefix_read_text [OF this "3.prems"(2)] show ?thesis
      by (rule prefix_imp_sublist)
  next
    assume s: "sublist n (read_text (if c = 13 \<and> d = 10 then r else d # r))"
    show ?thesis
    proof (cases "c = 13 \<and> d = 10")
      case True
      with s "3.IH"(1) "3.prems"(2) have "sublist n r" by simp
      then show ?thesis by (simp add: sublist_Cons_right)
    next
      case False
      with s have s': "sublist n (read_text (d # r))" by simp
      have "sublist n (d # r)"
      proof (cases "c = 13")
        case True
        with False "3.IH"(2) s' "3.prems"(2) show ?thesis by simp
      next
        case False
        with "3.IH"(3) s' "3.prems"(2) show ?thesis by simp
      qed
      then show ?thesis by (simp add: sublist_Cons_right)
    qed
  qed
qed

lemma tokenize_plain: "92 \<notin> set s \<Longrightarrow> tokenize s = Inr (map Ch s)"
  by (induction s rule: tokenize.induct) auto

lemma parse_tokens_plain: "parse_tokens (map Ch s) = Inr (map (\<lambda>c. Lit [c]) s)"
  by (induction s) auto

lemma expand_plain: "expand (map (\<lambda>c. Lit [c]) s) m = s"
  by (induction s) auto

lemma parse_template_plain:
  "92 \<notin> set s \<Longrightarrow> parse_template s = Inr (map (\<lambda>c. Lit [c]) s)"
  by (simp add: parse_template_def tokenize_plain parse_tokens_plain)
lemma rstrip_decomp: "s = rstrip s @ rev (takeWhile isspace (rev s))"
proof -
  have "rev (rstrip s @ rev (takeWhile isspace (rev s))) = rev s"
    by (simp add: rstrip_def)
  then have "rstrip s @ rev (takeWhile isspace (rev s)) = s"
    by (simp only: rev_is_rev_conv)
  then show ?thesis by (rule sym)
qed

lemma rstrip_last: "rstrip s = [] \<or> \<not> isspace (last (rstrip s))"
proof (cases "dropWhile isspace (rev s)")
  case Nil
  then show ?thesis by (simp add: rstrip_def)
next
  case (Cons c cs)
  then have "\<not> isspace c" by (metis hd_dropWhile list.distinct(1) list.sel(1))
  with Cons show ?thesis by (simp add: rstrip_def)
qed

lemma rstrip_ws: "list_all isspace (rev (takeWhile isspace (rev s)))"
  by (simp add: list_all_iff) (metis set_takeWhileD)

lemma re_sub_plain:
  "92 \<notin> set new_block \<Longrightarrow>
   \<exists>ps. parse_template (replacement new_block) = Inr ps \<and>
        (\<forall>m. expand ps m = replacement new_block)"
proof -
  assume "92 \<notin> set new_block"
  then have "92 \<notin> set (replacement new_block)"
    by (simp add: replacement_def marker_start_facts marker_end_facts)
  from parse_template_plain [OF this] show ?thesis
    by (auto simp: expand_plain)
qed

lemma read_text_last_nl:
  "x \<noteq> [] \<Longrightarrow> last x = 10 \<Longrightarrow> read_text x \<noteq> [] \<and> last (read_text x) = 10"
  by (induction x rule: read_text.induct) (auto split: if_splits)

lemma sublist_snoc_other: "sublist n (a @ [c]) \<Longrightarrow> c \<notin> set n \<Longrightarrow> sublist n a"
proof -
  assume s: "sublist n (a @ [c])" and c: "c \<notin> set n"
  from s have "suffix n (a @ [c]) \<or> sublist n a" by (simp add: sublist_snoc)
  then show "sublist n a"
  proof
    assume "suffix n (a @ [c])"
    then obtain z where z: "a @ [c] = z @ n" by (auto simp: suffix_def)
    show ?thesis
    proof (cases n rule: rev_cases)
      case Nil
      then show ?thesis by simp
    next
      case (snoc n' d)
      with z have "d = c" by simp
      with snoc c show ?thesis by simp
    qed
  qed
qed

lemma sublist_cons_other: "sublist n (c # a) \<Longrightarrow> c \<notin> set n \<Longrightarrow> sublist n a"
  by (cases n) (auto simp: sublist_Cons_right)

lemma body_text_facts:
  assumes "\<not> sublist marker_end new_block"
  shows "body_text new_block \<noteq> []" "last (body_text new_block) = 10"
    "\<not> sublist marker_end (body_text new_block)"
proof -
  have "[10] @ new_block @ [10] \<noteq> [] \<and> last ([10] @ new_block @ [10]) = 10" by simp
  then show "body_text new_block \<noteq> []" "last (body_text new_block) = 10"
    unfolding body_text_def using read_text_last_nl by blast+
  show "\<not> sublist marker_end (body_text new_block)"
  proof
    assume "sublist marker_end (body_text new_block)"
    then have "sublist marker_end ([10] @ new_block @ [10])"
      unfolding body_text_def by (rule sublist_read_text) (simp add: marker_end_facts)
    then have "sublist marker_end (10 # new_block)"
      using sublist_snoc_other [of marker_end "10 # new_block" 10]
      by (simp add: marker_end_facts)
    then have "sublist marker_end new_block"
      by (rule sublist_cons_other) (simp add: marker_end_facts)
    with assms show False by simp
  qed
qed

lemma read_text_replacement:
  "read_text (replacement new_block @ u) =
     marker_start @ body_text new_block @ marker_end @ read_text u"
proof -
  have "replacement new_block @ u =
        marker_start @ ([10] @ new_block @ [10]) @ (marker_end @ u)"
    by (simp add: replacement_def)
  then have "read_text (replacement new_block @ u) =
        marker_start @ read_text (([10] @ new_block @ [10]) @ (marker_end @ u))"
    by (simp only: read_text_append_plain [OF marker_start_facts(4)])
  also have "read_text (([10] @ new_block @ [10]) @ (marker_end @ u)) =
        read_text ([10] @ new_block @ [10]) @ read_text (marker_end @ u)"
    by (rule read_text_append) simp
  also have "read_text (marker_end @ u) = marker_end @ read_text u"
    by (rule read_text_append_plain) (rule marker_end_facts)
  finally show ?thesis by (simp add: body_text_def)
qed

subsection \<open>A second run on the output of a first run\<close>

lemma second_pass_search:
  assumes "\<And>y. find_first marker_start (pre @ marker_start @ y) = Some (pre, y)"
    and "13 \<notin> set pre"
    and "\<not> sublist marker_end new_block"
  shows "re_search (read_text (pre @ replacement new_block @ u)) =
         Some (pre, marker_start @ body_text new_block @ marker_end, read_text u)"
proof -
  have rt: "read_text (pre @ replacement new_block @ u) =
            pre @ marker_start @ body_text new_block @ marker_end @ read_text u"
    by (simp add: read_text_append_plain [OF assms(2)] read_text_replacement)
  note bt = body_text_facts [OF assms(3)]
  have "find_first marker_end (marker_end @ read_text u) = Some ([], read_text u)"
    using find_first_prefix [of marker_end "marker_end @ read_text u"] by simp
  then have "find_first marker_end (body_text new_block @ marker_end @ read_text u) =
        Some (body_text new_block, read_text u)"
    using find_first_skip [OF bt(3) bt(1), of "marker_end @ read_text u"] bt(2)
    by (simp add: marker_end_facts)
  with assms(1) [of "body_text new_block @ marker_end @ read_text u"] rt
  show ?thesis by (simp add: region_ofI)
qed

lemma sub_all_twice:
  assumes ex: "\<And>m. expand ps m = replacement new_block"
    and ne: "\<not> sublist marker_end new_block"
  shows "13 \<notin> set t \<Longrightarrow> sub_all ps (read_text (sub_all ps t)) = sub_all ps t"
proof (induction "length t" arbitrary: t rule: less_induct)
  case less
  show ?case
  proof (cases "re_search t")
    case None
    with less.prems show ?thesis by (simp add: sub_all_none read_text_ident)
  next
    case (Some r)
    obtain pre m post where r: "r = (pre, m, post)" by (cases r)
    with Some have rs: "re_search t = Some (pre, m, post)" by simp
    from rs obtain rest mid where ff: "find_first marker_start t = Some (pre, rest)"
      and "m = marker_start @ mid @ marker_end" and t: "t = pre @ m @ post"
      by (rule region_ofE)
    from find_first_sound [OF ff] have t': "t = pre @ marker_start @ rest" .
    from less.prems t have nc: "13 \<notin> set pre" "13 \<notin> set post" by auto
    have cong: "\<And>y. find_first marker_start (pre @ marker_start @ y) = Some (pre, y)"
      using ff t' find_first_cong by metis
    have s1: "sub_all ps t = pre @ replacement new_block @ sub_all ps post"
      using rs ex by (simp add: sub_all_some)
    have ih: "sub_all ps (read_text (sub_all ps post)) = sub_all ps post"
      using less.hyps [of post] re_search_shorter [OF rs] nc by simp
    from second_pass_search [OF cong nc(1) ne, of "sub_all ps post"] ex ih s1
    show ?thesis by (simp add: sub_all_some)
  qed
qed

lemma sub_all_search:
  assumes ex: "\<And>m. expand ps m = replacement new_block"
    and ne: "\<not> sublist marker_end new_block"
    and "13 \<notin> set t" and "re_search t \<noteq> None"
  shows "re_search (read_text (sub_all ps t)) \<noteq> None"
proof -
  from assms(4) obtain pre m post where rs: "re_search t = Some (pre, m, post)"
    by (cases "re_search t") auto
  from rs obtain rest mid where ff: "find_first marker_start t = Some (pre, rest)"
    and "m = marker_start @ mid @ marker_end" and t: "t = pre @ m @ post"
    by (rule region_ofE)
  from find_first_sound [OF ff] have t': "t = pre @ marker_start @ rest" .
  from assms(3) t have nc: "13 \<notin> set pre" by auto
  have cong: "\<And>y. find_first marker_start (pre @ marker_start @ y) = Some (pre, y)"
    using ff t' find_first_cong by metis
  have s1: "sub_all ps t = pre @ replacement new_block @ sub_all ps post"
    using rs ex by (simp add: sub_all_some)
  from second_pass_search [OF cong nc ne, of "sub_all ps post"] s1
  show ?thesis by simp
qed

section \<open>The claims about the document patcher\<close>

text \<open>
  Claim C1 (as amended). Patching leaves the document outside the marked region as it
  was read, in this sense. Let \<open>doc\<close> be the text of the file as \<open>read_text\<close> returns it
  (line endings normalised to a line feed; empty when the file does not exist), and let
  the patch complete (\<open>re.sub\<close> accepts the replacement, as it does for every body without
  a backslash). If \<open>doc\<close> has a marker region, the text before the first start marker is a
  prefix of the output; if moreover no further region follows the first one, the output is
  that text, a replacement and the unchanged text after the end marker, and the
  replacement is the markers around the new body when the body has no backslash. If
  \<open>doc\<close> has no marker region, the output is \<open>doc\<close> without its trailing whitespace,
  followed by two line feeds, the markers around the body and one line feed.
\<close>

theorem update_readme_frame:
  assumes "update_readme readme new_block = Inr out"
    and "doc = (case readme of Some content \<Rightarrow> read_text content | None \<Rightarrow> [])"
  shows "(\<forall>pre rest mid post.
            find_first marker_start doc = Some (pre, rest) \<and>
            find_first marker_end rest = Some (mid, post) \<longrightarrow>
              prefix pre out \<and>
              (re_search post = None \<longrightarrow>
                 (\<exists>r. out = pre @ r @ post) \<and>
                 (92 \<notin> set new_block \<longrightarrow> out = pre @ replacement new_block @ post))) \<and>
         (re_search doc = None \<longrightarrow>
            (\<exists>ws. doc = rstrip doc @ ws \<and> list_all isspace ws) \<and>
            (rstrip doc = [] \<or> \<not> isspace (last (rstrip doc))) \<and>
            out = rstrip doc @ [10, 10] @ replacement new_block @ [10])"
proof (intro conjI allI impI)
  fix pre rest mid post
  assume h: "find_first marker_start doc = Some (pre, rest) \<and>
             find_first marker_end rest = Some (mid, post)"
  then have rs: "re_search doc = Some (pre, marker_start @ mid @ marker_end, post)"
    by (simp add: region_ofI)
  with assms obtain ps where ps: "parse_template (replacement new_block) = Inr ps"
    and out: "out = sub_all ps doc"
    by (auto simp: update_readme_def re_sub_def split: sum.splits)
  from out rs have o: "out = pre @ expand ps (marker_start @ mid @ marker_end) @ sub_all ps post"
    by (simp add: sub_all_some)
  then show "prefix pre out" by simp
  {
    assume "re_search post = None"
    with o have o': "out = pre @ expand ps (marker_start @ mid @ marker_end) @ post"
      by (simp add: sub_all_none)
    then show "\<exists>r. out = pre @ r @ post" by blast
    assume "92 \<notin> set new_block"
    from re_sub_plain [OF this] ps o' show "out = pre @ replacement new_block @ post"
      by auto
  }
next
  assume "re_search doc = None"
  with assms show "out = rstrip doc @ [10, 10] @ replacement new_block @ [10]"
    by (simp add: update_readme_def)
next
  show "\<exists>ws. doc = rstrip doc @ ws \<and> list_all isspace ws"
    using rstrip_decomp [of doc] rstrip_ws [of doc] by blast
next
  show "rstrip doc = [] \<or> \<not> isspace (last (rstrip doc))"
    by (rule rstrip_last)
qed

theorem update_readme_frame_witness:
  "prefix (ascii ''ab'')
     (ascii ''ab'' @ replacement (ascii ''new'') @ ascii ''cd'') \<and>
   update_readme (Some (ascii ''ab'' @ marker_start @ ascii ''old'' @ marker_end @ ascii ''cd''))
     (ascii ''new'') = Inr (ascii ''ab'' @ replacement (ascii ''new'') @ ascii ''cd'')"
proof -
  let ?d = "ascii ''ab'' @ marker_start @ ascii ''old'' @ marker_end @ ascii ''cd''"
  let ?out = "ascii ''ab'' @ replacement (ascii ''new'') @ ascii ''cd''"
  have h: "update_readme (Some ?d) (ascii ''new'') = Inr ?out"
    by code_simp
  have f1: "find_first marker_start (read_text ?d) =
            Some (ascii ''ab'', ascii ''old'' @ marker_end @ ascii ''cd'')"
    by code_simp
  have f2: "find_first marker_end (ascii ''old'' @ marker_end @ ascii ''cd'') =
            Some (ascii ''old'', ascii ''cd'')"
    by code_simp
  have f3: "re_search (ascii ''cd'') = None"
    by code_simp
  have f4: "92 \<notin> set (ascii ''new'')"
    by code_simp
  from update_readme_frame [OF h, of "read_text ?d"] f1 f2 f3 f4
  have "prefix (ascii ''ab'') ?out"
    by simp
  with h show ?thesis by simp
qed

text \<open>
  The claim as the specification states it, with every byte outside the region kept also
  when the markers are appended, fails on a document that ends in whitespace: the
  document \<open>x\<close>, space has no marker region, and the space is gone from the output.
\<close>

theorem update_readme_frame_counterexample:
  "re_search (read_text (ascii ''x '')) = None \<and>
   update_readme (Some (ascii ''x '')) (ascii ''b'') =
     Inr (ascii ''x'' @ [10, 10] @ replacement (ascii ''b'') @ [10]) \<and>
   \<not> prefix (ascii ''x '') (ascii ''x'' @ [10, 10] @ replacement (ascii ''b'') @ [10])"
  by code_simp

text \<open>
  Claim C2 (as amended). \<open>re.sub\<close> is called without a count, so the patch replaces
  every marker region it finds from left to right, not only the first: the first region,
  from the first start marker to the first end marker after it, is replaced by the
  markers around the new body (a body without a backslash), and the text after that
  region is the result of patching it in the same way when it holds a further region,
  and is unchanged otherwise.
\<close>

theorem update_readme_every_region:
  assumes "doc = read_text content"
    and "find_first marker_start doc = Some (pre, rest)"
    and "find_first marker_end rest = Some (mid, post)"
    and "92 \<notin> set new_block"
  shows "\<exists>tail. update_readme (Some content) new_block =
                   Inr (pre @ replacement new_block @ tail) \<and>
               (if re_search post = None then tail = post
                else update_readme (Some post) new_block = Inr tail)"
proof -
  from re_sub_plain [OF assms(4)] obtain ps
    where ps: "parse_template (replacement new_block) = Inr ps"
      and ex: "\<And>m. expand ps m = replacement new_block"
    by blast
  from assms(2,3) have rs: "re_search doc = Some (pre, marker_start @ mid @ marker_end, post)"
    by (simp add: region_ofI)
  have "doc = pre @ marker_start @ rest" "rest = mid @ marker_end @ post"
    using assms(2,3) by (simp_all add: find_first_sound)
  moreover have "13 \<notin> set doc" by (simp add: assms(1) read_text_no_cr)
  ultimately have "13 \<notin> set post" by auto
  then have rp: "read_text post = post" by (rule read_text_ident)
  have a: "update_readme (Some content) new_block =
        Inr (pre @ replacement new_block @ sub_all ps post)"
    using rs ps ex assms(1) by (simp add: update_readme_def re_sub_def sub_all_some)
  show ?thesis
  proof (cases "re_search post = None")
    case True
    with a show ?thesis by (simp add: sub_all_none)
  next
    case False
    with rp ps have "update_readme (Some post) new_block = Inr (sub_all ps post)"
      by (simp add: update_readme_def re_sub_def)
    then have "update_readme (Some content) new_block =
          Inr (pre @ replacement new_block @ sub_all ps post) \<and>
        (if re_search post = None then sub_all ps post = post
         else update_readme (Some post) new_block = Inr (sub_all ps post))"
      using a False by (simp only: if_False simp_thms)
    then show ?thesis by (rule exI)
  qed
qed

theorem update_readme_every_region_witness:
  "\<exists>tail. update_readme
            (Some (marker_start @ ascii ''a'' @ marker_end @ ascii ''x'' @
                   marker_start @ ascii ''b'' @ marker_end))
            (ascii ''n'') = Inr ([] @ replacement (ascii ''n'') @ tail) \<and>
          update_readme (Some (ascii ''x'' @ marker_start @ ascii ''b'' @ marker_end))
            (ascii ''n'') = Inr tail"
proof -
  let ?p = "ascii ''x'' @ marker_start @ ascii ''b'' @ marker_end"
  let ?d = "marker_start @ ascii ''a'' @ marker_end @ ?p"
  have f1: "find_first marker_start (read_text ?d) = Some ([], ascii ''a'' @ marker_end @ ?p)"
    by code_simp
  have f2: "find_first marker_end (ascii ''a'' @ marker_end @ ?p) = Some (ascii ''a'', ?p)"
    by code_simp
  have f3: "92 \<notin> set (ascii ''n'')"
    by code_simp
  have f4: "re_search ?p \<noteq> None"
    by code_simp
  from update_readme_every_region [OF refl f1 f2 f3] f4 show ?thesis
    by simp
qed

text \<open>
  With two regions in the document the second one is replaced as well: the text after
  the first region is not what it was.
\<close>

theorem update_readme_every_region_counterexample:
  "update_readme
     (Some (marker_start @ ascii ''a'' @ marker_end @ ascii ''x'' @
            marker_start @ ascii ''b'' @ marker_end))
     (ascii ''n'') =
   Inr (replacement (ascii ''n'') @ ascii ''x'' @ replacement (ascii ''n'')) \<and>
   \<not> suffix (ascii ''x'' @ marker_start @ ascii ''b'' @ marker_end)
       (replacement (ascii ''n'') @ ascii ''x'' @ replacement (ascii ''n''))"
  by code_simp

text \<open>
  Claim C3 (as amended). A second run with the same body writes what the first run wrote,
  for every body that has no backslash and does not contain the end marker, and every
  document that either has a marker region or does not contain the start marker at all.
\<close>

theorem update_readme_twice:
  assumes "92 \<notin> set new_block"
    and "\<not> sublist marker_end new_block"
    and "doc = (case readme of Some content \<Rightarrow> read_text content | None \<Rightarrow> [])"
    and "re_search doc \<noteq> None \<or> \<not> sublist marker_start doc"
  shows "\<exists>out. update_readme readme new_block = Inr out \<and>
               update_readme (Some out) new_block = Inr out"
proof -
  from re_sub_plain [OF assms(1)] obtain ps
    where ps: "parse_template (replacement new_block) = Inr ps"
      and ex: "\<And>m. expand ps m = replacement new_block"
    by blast
  have nc: "13 \<notin> set doc"
    unfolding assms(3) by (cases readme) (simp_all add: read_text_no_cr)
  show ?thesis
  proof (cases "re_search doc = None")
    case False
    then have 1: "update_readme readme new_block = Inr (sub_all ps doc)"
      using ps assms(3) by (simp add: update_readme_def re_sub_def)
    have "re_search (read_text (sub_all ps doc)) \<noteq> None"
      using sub_all_search [OF ex assms(2) nc False] .
    then have "update_readme (Some (sub_all ps doc)) new_block =
          Inr (sub_all ps (read_text (sub_all ps doc)))"
      using ps by (simp add: update_readme_def re_sub_def)
    with sub_all_twice [OF ex assms(2) nc] 1 show ?thesis by simp
  next
    case True
    with assms(4) have ns: "\<not> sublist marker_start doc" by simp
    define pre where "pre = rstrip doc @ [10, 10]"
    have 1: "update_readme readme new_block = Inr (pre @ replacement new_block @ [10])"
      using True assms(3) by (simp add: update_readme_def pre_def)
    have "sublist (rstrip doc) doc"
      using rstrip_decomp [of doc] by (metis sublist_append_rightI)
    then have ncp: "13 \<notin> set pre"
      using nc set_mono_sublist [of "rstrip doc" doc] by (auto simp: pre_def)
    have nsp: "\<not> sublist marker_start pre"
    proof
      assume "sublist marker_start pre"
      then have "sublist marker_start ((rstrip doc @ [10]) @ [10])" by (simp add: pre_def)
      then have "sublist marker_start (rstrip doc @ [10])"
        by (rule sublist_snoc_other) (rule marker_start_facts)
      then have "sublist marker_start (rstrip doc)"
        by (rule sublist_snoc_other) (rule marker_start_facts)
      with \<open>sublist (rstrip doc) doc\<close> ns show False
        by (metis sublist_order.order.trans)
    qed
    have cong: "\<And>y. find_first marker_start (pre @ marker_start @ y) = Some (pre, y)"
    proof -
      fix y
      have "find_first marker_start (marker_start @ y) = Some ([], y)"
        using find_first_prefix [of marker_start "marker_start @ y"] by simp
      then show "find_first marker_start (pre @ marker_start @ y) = Some (pre, y)"
        using find_first_skip [OF nsp, of "marker_start @ y"]
        by (simp add: pre_def marker_start_facts)
    qed
    have tail: "re_search [10] = None"
      by (simp add: match_here_def marker_start_def ascii_def)
    from second_pass_search [OF cong ncp assms(2), of "[10]"]
    have rs: "re_search (read_text (pre @ replacement new_block @ [10])) =
          Some (pre, marker_start @ body_text new_block @ marker_end, [10])"
      by simp
    then have "update_readme (Some (pre @ replacement new_block @ [10])) new_block =
          Inr (pre @ replacement new_block @ [10])"
      using ps ex tail by (simp add: update_readme_def re_sub_def sub_all_some sub_all_none)
    with 1 show ?thesis by simp
  qed
qed

theorem update_readme_twice_witness:
  "\<exists>out. update_readme
           (Some (ascii ''ab'' @ marker_start @ ascii ''old'' @ marker_end @ ascii ''cd''))
           (ascii ''new'') = Inr out \<and>
         update_readme (Some out) (ascii ''new'') = Inr out"
proof -
  let ?d = "ascii ''ab'' @ marker_start @ ascii ''old'' @ marker_end @ ascii ''cd''"
  have f1: "92 \<notin> set (ascii ''new'')"
    by code_simp
  have f2: "\<not> sublist marker_end (ascii ''new'')"
    by code_simp
  have f3: "re_search (read_text ?d) \<noteq> None \<or> \<not> sublist marker_start (read_text ?d)"
    by code_simp
  from update_readme_twice [OF f1 f2 _ f3, of "Some ?d"] show ?thesis
    by simp
qed

text \<open>
  Without the conditions the second run can differ from the first. A document with a
  start marker and no end marker gets the block appended by the first run, and the
  second run then replaces everything from that stray start marker on.
\<close>

theorem update_readme_twice_counterexample:
  "update_readme (Some (marker_start @ ascii ''foo'')) (ascii ''b'') =
     Inr (marker_start @ ascii ''foo'' @ [10, 10] @ replacement (ascii ''b'') @ [10]) \<and>
   update_readme
     (Some (marker_start @ ascii ''foo'' @ [10, 10] @ replacement (ascii ''b'') @ [10]))
     (ascii ''b'') =
     Inr (replacement (ascii ''b'') @ [10]) \<and>
   marker_start @ ascii ''foo'' @ [10, 10] @ replacement (ascii ''b'') @ [10] \<noteq>
     replacement (ascii ''b'') @ [10]"
  by code_simp

text \<open>
  The two conditions on the body are needed as well: a body that contains the end marker
  ends the region early in the second run, and a backslash in the body is written as it
  is when the block is appended but read as an escape by \<open>re.sub\<close> in the second run.
\<close>

lemma update_readme_twice_end_marker_body:
  "update_readme None marker_end = Inr ([10, 10] @ replacement marker_end @ [10]) \<and>
   update_readme (Some ([10, 10] @ replacement marker_end @ [10])) marker_end =
     Inr ([10, 10] @ replacement marker_end @ [10] @ marker_end @ [10])"
  by code_simp

lemma update_readme_twice_backslash_body:
  "update_readme None [92, 110] = Inr ([10, 10] @ replacement [92, 110] @ [10]) \<and>
   update_readme (Some ([10, 10] @ replacement [92, 110] @ [10])) [92, 110] =
     Inr ([10, 10] @ replacement [10] @ [10])"
  by code_simp

section \<open>Properties of the API client and the aggregation\<close>

text \<open>
  Claim C4 (as amended). \<open>graphql\<close> tests \<open>"errors" in payload\<close>: it raises the protocol
  error exactly when the decoded response has an \<open>errors\<close> entry, whatever the value of
  the entry is, an empty list included, and the \<open>RuntimeError\<close> carries that value. When the
  response has no \<open>errors\<close> entry the call returns the \<open>data\<close> entry, and fails with a
  \<open>KeyError\<close> when there is none.
\<close>

theorem graphql_raises_iff_errors_entry:
  assumes "net token login cursor = Inr p"
  shows "((\<exists>errs. graphql net token login cursor = Inl (RuntimeError errs)) \<longleftrightarrow>
            payload_errors p \<noteq> None) \<and>
         (\<forall>errs. payload_errors p = Some errs \<longrightarrow>
            graphql net token login cursor = Inl (RuntimeError errs)) \<and>
         (payload_errors p = None \<longrightarrow>
            (\<forall>d. payload_data p = Some d \<longrightarrow> graphql net token login cursor = Inr d) \<and>
            (payload_data p = None \<longrightarrow> graphql net token login cursor = Inl KeyError))"
  using assms by (auto simp: graphql_def graphql_result_def split: option.splits)

theorem graphql_raises_iff_errors_entry_witness:
  "graphql (\<lambda>token login cursor.
       Inr \<lparr>payload_errors = Some (JArr [JStr (ascii ''boom'')]), payload_data = None\<rparr>)
     (ascii ''t'') (ascii ''u'') None = Inl (RuntimeError (JArr [JStr (ascii ''boom'')]))"
proof -
  let ?p = "\<lparr>payload_errors = Some (JArr [JStr (ascii ''boom'')]),
            payload_data = None :: page option option\<rparr>"
  let ?net = "\<lambda>token login cursor. Inr ?p :: error + page option payload"
  have "?net (ascii ''t'') (ascii ''u'') None = Inr ?p" by simp
  with graphql_raises_iff_errors_entry [of ?net "ascii ''t''" "ascii ''u''" None ?p]
  show ?thesis by simp
qed

text \<open>
  The claim as the specification states it, an error exactly for a non-empty error list,
  fails on a response whose \<open>errors\<close> entry is the empty list: the call raises and does not
  return the data.
\<close>

theorem graphql_empty_errors_counterexample:
  "graphql (\<lambda>token login cursor.
       Inr \<lparr>payload_errors = Some (JArr []),
            payload_data = Some (Some \<lparr>nodes = [], hasNextPage = False, endCursor = None\<rparr>)\<rparr>)
     (ascii ''t'') (ascii ''u'') None = Inl (RuntimeError (JArr [])) \<and>
   graphql (\<lambda>token login cursor.
       Inr \<lparr>payload_errors = Some (JArr []),
            payload_data = Some (Some \<lparr>nodes = [], hasNextPage = False, endCursor = None\<rparr>)\<rparr>)
     (ascii ''t'') (ascii ''u'') None \<noteq>
     Inr (Some \<lparr>nodes = [], hasNextPage = False, endCursor = None\<rparr>)"
  by (simp add: graphql_def graphql_result_def)

subsection \<open>Repositories without edges\<close>

lemma add_nodes_append:
  "add_nodes xr xl (rs1 @ rs2) T =
     (case add_nodes xr xl rs1 T of Inl e \<Rightarrow> Inl e | Inr T' \<Rightarrow> add_nodes xr xl rs2 T')"
  by (induction rs1 arbitrary: T) (auto split: sum.splits)

text \<open>
  Claim C10. A repository whose \<open>languages\<close> entry is missing, or whose \<open>edges\<close> entry is
  missing or \<open>null\<close>, is passed without an exception and leaves the totals as they are;
  the totals of a list of repositories are those of the list without it.
\<close>

theorem add_repo_without_edges:
  assumes "languages r = Missing \<or> languages r = Val Missing \<or> languages r = Val Null"
  shows "add_repo exclude_repos exclude_langs r totals = Inr totals \<and>
         add_nodes exclude_repos exclude_langs (rs1 @ r # rs2) totals =
           add_nodes exclude_repos exclude_langs (rs1 @ rs2) totals"
proof -
  from assms have a: "\<And>T. add_repo exclude_repos exclude_langs r T = Inr T"
    by (auto simp: add_repo_def repo_edges_def)
  then show ?thesis
    by (simp add: add_nodes_append split: sum.splits)
qed

theorem add_repo_without_edges_witness:
  "add_repo {} {}
     \<lparr>repo_name = Val (ascii ''r''), isArchived = Val False, languages = Val Null\<rparr>
     [(ascii ''C'', 5)] = Inr [(ascii ''C'', 5)] \<and>
   add_nodes {} {}
     ([] @ \<lparr>repo_name = Val (ascii ''r''), isArchived = Val False, languages = Val Null\<rparr> # [])
     [(ascii ''C'', 5)] = add_nodes {} {} ([] @ []) [(ascii ''C'', 5)]"
proof -
  let ?r = "\<lparr>repo_name = Val (ascii ''r''), isArchived = Val False,
             languages = Val Null :: lang_edge list field field\<rparr>"
  have "languages ?r = Missing \<or> languages ?r = Val Missing \<or> languages ?r = Val Null"
    by simp
  from add_repo_without_edges [OF this, of "{}" "{}" "[(ascii ''C'', 5)]" "[]" "[]"]
  show ?thesis .
qed

subsection \<open>Positive totals\<close>

lemma add_total_positive:
  "0 < n \<Longrightarrow> \<forall>(l, v) \<in> set T. 0 < v \<Longrightarrow> \<forall>(l, v) \<in> set (add_total k n T). 0 < v"
  by (induction T) (auto split: if_splits)

lemma add_edges_positive:
  "\<forall>e \<in> set es. 0 < edge_size e \<Longrightarrow> \<forall>(l, v) \<in> set T. 0 < v \<Longrightarrow>
   \<forall>(l, v) \<in> set (add_edges xl es T). 0 < v"
proof (induction es arbitrary: T)
  case Nil
  then show ?case by simp
next
  case (Cons e es)
  from Cons.prems(1) have e: "0 < edge_size e" and es: "\<forall>e \<in> set es. 0 < edge_size e"
    by simp_all
  show ?case
  proof (cases "node_name e \<in> xl")
    case True
    with Cons.IH [OF es Cons.prems(2)] show ?thesis by simp
  next
    case False
    from add_total_positive [OF e Cons.prems(2)]
    have "\<forall>(l, v) \<in> set (add_total (node_name e) (edge_size e) T). 0 < v" .
    from Cons.IH [OF es this] False show ?thesis by simp
  qed
qed

text \<open>
  Claim C5 (as amended). If every language edge of the input has a strictly positive
  size, every key of the totals has a strictly positive value, for every pair of exclusion
  sets and from any totals that have the property (the empty totals of \<open>main\<close> do).
\<close>

theorem totals_positive:
  assumes "add_nodes exclude_repos exclude_langs rs totals = Inr totals'"
    and "\<forall>r \<in> set rs. \<forall>es. languages r = Val (Val es) \<longrightarrow> (\<forall>e \<in> set es. 0 < edge_size e)"
    and "\<forall>(l, v) \<in> set totals. 0 < v"
  shows "\<forall>(l, v) \<in> set totals'. 0 < v"
  using assms
proof (induction rs arbitrary: totals)
  case Nil
  then show ?case by simp
next
  case (Cons r rs)
  from Cons.prems(1) obtain T1 where 1: "add_repo exclude_repos exclude_langs r totals = Inr T1"
    and 2: "add_nodes exclude_repos exclude_langs rs T1 = Inr totals'"
    by (auto split: sum.splits)
  have "\<forall>(l, v) \<in> set T1. 0 < v"
  proof (cases "skipped exclude_repos r")
    case True
    with 1 Cons.prems(3) show ?thesis by (simp add: add_repo_def)
  next
    case False
    with 1 obtain es where es: "repo_edges r = Inr es" and T1: "T1 = add_edges exclude_langs es totals"
      by (auto simp: add_repo_def split: sum.splits)
    from es have "es = [] \<or> languages r = Val (Val es)"
      by (auto simp: repo_edges_def split: field.splits)
    with Cons.prems(2) have "\<forall>e \<in> set es. 0 < edge_size e" by auto
    from add_edges_positive [OF this Cons.prems(3)] T1 show ?thesis by simp
  qed
  from Cons.IH [OF 2 _ this] Cons.prems(2) show ?case by simp
qed

theorem totals_positive_witness:
  "add_nodes {} {}
     [\<lparr>repo_name = Val (ascii ''r''), isArchived = Val False,
       languages = Val (Val [\<lparr>node_name = ascii ''A'', edge_size = 3\<rparr>,
                             \<lparr>node_name = ascii ''B'', edge_size = 2\<rparr>])\<rparr>,
      \<lparr>repo_name = Val (ascii ''s''), isArchived = Val False,
       languages = Val (Val [\<lparr>node_name = ascii ''A'', edge_size = 4\<rparr>])\<rparr>] [] =
     Inr [(ascii ''A'', 7), (ascii ''B'', 2)] \<and>
   list_all (\<lambda>(l, v). 0 < v) [(ascii ''A'', 7 :: int), (ascii ''B'', 2)]"
proof -
  let ?rs = "[\<lparr>repo_name = Val (ascii ''r''), isArchived = Val False,
               languages = Val (Val [\<lparr>node_name = ascii ''A'', edge_size = 3\<rparr>,
                                     \<lparr>node_name = ascii ''B'', edge_size = 2\<rparr>])\<rparr>,
             \<lparr>repo_name = Val (ascii ''s''), isArchived = Val False,
               languages = Val (Val [\<lparr>node_name = ascii ''A'', edge_size = 4\<rparr>])\<rparr>]"
  have 1: "add_nodes {} {} ?rs [] = Inr [(ascii ''A'', 7), (ascii ''B'', 2)]"
    by (simp add: add_repo_def skipped_def repo_edges_def ascii_def)
  have 2: "\<forall>r \<in> set ?rs. \<forall>es. languages r = Val (Val es) \<longrightarrow> (\<forall>e \<in> set es. 0 < edge_size e)"
    by auto
  have 3: "\<forall>(l, v) \<in> set ([] :: totals). 0 < v" by simp
  from totals_positive [OF 1 2 3]
  have "list_all (\<lambda>(l, v). 0 < v) [(ascii ''A'', 7 :: int), (ascii ''B'', 2)]"
    by (simp only: list_all_iff)
  with 1 show ?thesis by (rule conjI)
qed

text \<open>
  Without the condition on the input the invariant fails: nothing in the loop looks at
  the size, so an edge of size 0 stores a key with the value 0.
\<close>

theorem totals_positive_counterexample:
  "add_nodes {} {}
     [\<lparr>repo_name = Val (ascii ''r''), isArchived = Val False,
       languages = Val (Val [\<lparr>node_name = ascii ''A'', edge_size = 0\<rparr>])\<rparr>] [] =
     Inr [(ascii ''A'', 0)] \<and>
   \<not> (0::int) < snd (ascii ''A'', 0)"
  by (simp add: add_repo_def skipped_def repo_edges_def ascii_def)

subsection \<open>The order of the repositories\<close>

text \<open>
  The totals as a mapping are \<open>map_of\<close> of the association list; adding the edges of a
  list of repositories gives the \<open>tally\<close> of their kept edges, which does not depend on
  the order of the edges.
\<close>

lemma map_of_add_total:
  "map_of (add_total l n T) = (map_of T)(l \<mapsto> (case map_of T l of None \<Rightarrow> 0 | Some v \<Rightarrow> v) + n)"
  by (induction T) (auto simp: fun_eq_iff)

lemma tally_Nil: "tally [] m = m"
  by (simp add: tally_def)

lemma tally_Cons:
  "tally (e # es) m =
     tally es (m(node_name e \<mapsto> (case m (node_name e) of None \<Rightarrow> 0 | Some v \<Rightarrow> v) + edge_size e))"
proof -
  have "\<And>k. k \<notin> node_name ` set es \<Longrightarrow> filter (\<lambda>e. node_name e = k) es = []"
    by (auto simp: filter_empty_conv)
  then show ?thesis
    by (auto simp: tally_def fun_eq_iff split: option.splits)
qed

lemma tally_append: "tally (es1 @ es2) m = tally es2 (tally es1 m)"
  by (induction es1 arbitrary: m) (simp_all add: tally_Nil tally_Cons)

lemma map_of_add_edges:
  "map_of (add_edges xl es T) = tally (filter (\<lambda>e. node_name e \<notin> xl) es) (map_of T)"
  by (induction es arbitrary: T) (simp_all add: tally_Nil tally_Cons map_of_add_total)

lemma tally_mset: "mset es = mset es' \<Longrightarrow> tally es m = tally es' m"
proof -
  assume eq: "mset es = mset es'"
  then have s: "set es = set es'" by (rule mset_eq_setD)
  have "\<And>k. sum_list (map edge_size (filter (\<lambda>e. node_name e = k) es)) =
        sum_list (map edge_size (filter (\<lambda>e. node_name e = k) es'))"
  proof -
    fix k
    have "mset (map edge_size (filter (\<lambda>e. node_name e = k) es)) =
          mset (map edge_size (filter (\<lambda>e. node_name e = k) es'))"
      using eq by simp
    then show "sum_list (map edge_size (filter (\<lambda>e. node_name e = k) es)) =
        sum_list (map edge_size (filter (\<lambda>e. node_name e = k) es'))"
      by (metis sum_mset_sum_list)
  qed
  then have "\<And>k. tally es m k = tally es' m k"
    using s by (simp add: tally_def)
  then show ?thesis by (rule ext)
qed

lemma add_repo_ok:
  "repo_ok xr r \<Longrightarrow> \<exists>T'. add_repo xr xl r T = Inr T' \<and>
      map_of T' = tally (kept_edges xr xl r) (map_of T)"
  by (auto simp: repo_ok_def add_repo_def kept_edges_def repo_edges_def tally_Nil map_of_add_edges
           split: field.splits)

lemma add_repo_fail: "\<not> repo_ok xr r \<Longrightarrow> add_repo xr xl r T = Inl AttributeError"
  by (auto simp: repo_ok_def add_repo_def repo_edges_def split: field.splits)

lemma add_nodes_ok:
  "\<forall>r \<in> set rs. repo_ok xr r \<Longrightarrow>
   \<exists>T'. add_nodes xr xl rs T = Inr T' \<and>
        map_of T' = tally (concat (map (kept_edges xr xl) rs)) (map_of T)"
proof (induction rs arbitrary: T)
  case Nil
  then show ?case by (simp add: tally_Nil)
next
  case (Cons r rs)
  then have "repo_ok xr r" by simp
  from add_repo_ok [OF this, of xl T] obtain T1
    where 1: "add_repo xr xl r T = Inr T1"
      and 2: "map_of T1 = tally (kept_edges xr xl r) (map_of T)"
    by blast
  from Cons.prems have "\<forall>r \<in> set rs. repo_ok xr r" by simp
  from Cons.IH [OF this, of T1] 1 2 show ?case
    by (auto simp: tally_append)
qed

lemma add_nodes_fail:
  "\<exists>r \<in> set rs. \<not> repo_ok xr r \<Longrightarrow> add_nodes xr xl rs T = Inl AttributeError"
proof (induction rs arbitrary: T)
  case Nil
  then show ?case by simp
next
  case (Cons r rs)
  show ?case
  proof (cases "repo_ok xr r")
    case False
    from add_repo_fail [OF this] show ?thesis by simp
  next
    case True
    from add_repo_ok [OF this, of xl T] obtain T1 where 1: "add_repo xr xl r T = Inr T1"
      by blast
    from True Cons.prems have "\<exists>r \<in> set rs. \<not> repo_ok xr r" by auto
    from Cons.IH [OF this, of T1] 1 show ?thesis by simp
  qed
qed

text \<open>
  Claim C6. Aggregating a permutation of the list of repositories gives the same totals
  as a mapping from language to bytes; and when the aggregation of the list raises, the
  aggregation of the permutation raises the same exception.
\<close>

theorem add_nodes_order_independent:
  assumes "mset rs' = mset rs"
  shows "case add_nodes exclude_repos exclude_langs rs totals of
           Inl e \<Rightarrow> add_nodes exclude_repos exclude_langs rs' totals = Inl e
         | Inr T \<Rightarrow> \<exists>T'. add_nodes exclude_repos exclude_langs rs' totals = Inr T' \<and>
                        map_of T' = map_of T"
proof (cases "\<forall>r \<in> set rs. repo_ok exclude_repos r")
  case True
  from assms have s: "set rs' = set rs" by (rule mset_eq_setD)
  with True have True': "\<forall>r \<in> set rs'. repo_ok exclude_repos r" by simp
  from add_nodes_ok [OF True, of exclude_langs totals] obtain T
    where 1: "add_nodes exclude_repos exclude_langs rs totals = Inr T"
      and 2: "map_of T = tally (concat (map (kept_edges exclude_repos exclude_langs) rs))
                (map_of totals)"
    by blast
  from add_nodes_ok [OF True', of exclude_langs totals] obtain T'
    where 3: "add_nodes exclude_repos exclude_langs rs' totals = Inr T'"
      and 4: "map_of T' = tally (concat (map (kept_edges exclude_repos exclude_langs) rs'))
                (map_of totals)"
    by blast
  have "mset (concat (map (kept_edges exclude_repos exclude_langs) rs')) =
        mset (concat (map (kept_edges exclude_repos exclude_langs) rs))"
  proof -
    have "mset (map (\<lambda>r. mset (kept_edges exclude_repos exclude_langs r)) rs') =
          mset (map (\<lambda>r. mset (kept_edges exclude_repos exclude_langs r)) rs)"
      using assms by simp
    then have "sum_list (map (\<lambda>r. mset (kept_edges exclude_repos exclude_langs r)) rs') =
          sum_list (map (\<lambda>r. mset (kept_edges exclude_repos exclude_langs r)) rs)"
      by (metis sum_mset_sum_list)
    then show ?thesis by (simp add: mset_concat comp_def)
  qed
  from tally_mset [OF this] 2 4 have "map_of T' = map_of T" by simp
  with 1 3 show ?thesis by simp
next
  case False
  then have f: "\<exists>r \<in> set rs. \<not> repo_ok exclude_repos r" by simp
  from assms have "set rs' = set rs" by (rule mset_eq_setD)
  with f have f': "\<exists>r \<in> set rs'. \<not> repo_ok exclude_repos r" by simp
  from add_nodes_fail [OF f, of exclude_langs totals] add_nodes_fail [OF f', of exclude_langs totals]
  show ?thesis by simp
qed

theorem add_nodes_order_independent_witness:
  "\<exists>T'. add_nodes {} {}
          [\<lparr>repo_name = Val (ascii ''s''), isArchived = Val False,
            languages = Val (Val [\<lparr>node_name = ascii ''B'', edge_size = 2\<rparr>,
                                  \<lparr>node_name = ascii ''A'', edge_size = 4\<rparr>])\<rparr>,
           \<lparr>repo_name = Val (ascii ''r''), isArchived = Val False,
            languages = Val (Val [\<lparr>node_name = ascii ''A'', edge_size = 3\<rparr>])\<rparr>] [] = Inr T' \<and>
        map_of T' = map_of [(ascii ''A'', 7), (ascii ''B'', 2)]"
proof -
  let ?r = "\<lparr>repo_name = Val (ascii ''r''), isArchived = Val False,
             languages = Val (Val [\<lparr>node_name = ascii ''A'', edge_size = 3\<rparr>])\<rparr>"
  let ?s = "\<lparr>repo_name = Val (ascii ''s''), isArchived = Val False,
             languages = Val (Val [\<lparr>node_name = ascii ''B'', edge_size = 2\<rparr>,
                                   \<lparr>node_name = ascii ''A'', edge_size = 4\<rparr>])\<rparr>"
  have m: "mset [?s, ?r] = mset [?r, ?s]" by simp
  have a: "add_nodes {} {} [?r, ?s] [] = Inr [(ascii ''A'', 7), (ascii ''B'', 2)]"
    by (simp add: add_repo_def skipped_def repo_edges_def ascii_def)
  from add_nodes_order_independent [OF m, of "{}" "{}" "[]"] a show ?thesis
    by simp
qed

subsection \<open>The loop over the pages\<close>

text \<open>
  The loop of \<open>main\<close> passes the totals from page to page: when it returns totals, they
  are the totals of the list of all repositories of the pages it fetched, in the order
  of the pages. A last page ends the loop.
\<close>

lemma fetch_all_last_page:
  assumes "graphql net token owner cursor = Inr (Some pg)" and "\<not> hasNextPage pg"
  shows "fetch_all net token owner xr xl cursor totals =
           Some (add_nodes xr xl (nodes pg) totals)"
  using assms by (subst fetch_all.simps) (simp split: sum.splits)

lemma fetch_all_next_page:
  assumes "graphql net token owner cursor = Inr (Some pg)" and "hasNextPage pg"
    and "add_nodes xr xl (nodes pg) totals = Inr totals'"
  shows "fetch_all net token owner xr xl cursor totals =
           fetch_all net token owner xr xl (endCursor pg) totals'"
  using assms by (subst fetch_all.simps) simp

lemma fetch_all_pages:
  assumes "fetch_all net token owner xr xl cursor totals = Some y"
  shows "\<forall>T. y = Inr T \<longrightarrow>
           (\<exists>pages. pages \<noteq> [] \<and>
              (\<forall>pg \<in> set pages. \<exists>c. graphql net token owner c = Inr (Some pg)) \<and>
              add_nodes xr xl (concat (map nodes pages)) totals = Inr T)"
  using assms
proof (induct rule: fetch_all.raw_induct [rotated 1, consumes 1, case_names 1])
  case (1 fetch_all' net token owner xr xl cursor totals y)
  show ?case
  proof (intro allI impI)
    fix T
    assume y: "y = Inr T"
    from "1"(2) y obtain pg totals1
      where g: "graphql net token owner cursor = Inr (Some pg)"
        and a: "add_nodes xr xl (nodes pg) totals = Inr totals1"
        and r: "(if \<not> hasNextPage pg then Some (Inr totals1)
                 else fetch_all' net token owner xr xl (endCursor pg) totals1) = Some (Inr T)"
      by (auto split: sum.splits option.splits)
    show "\<exists>pages. pages \<noteq> [] \<and>
              (\<forall>pg \<in> set pages. \<exists>c. graphql net token owner c = Inr (Some pg)) \<and>
              add_nodes xr xl (concat (map nodes pages)) totals = Inr T"
    proof (cases "hasNextPage pg")
      case False
      with r have "totals1 = T" by simp
      with g a have "[pg] \<noteq> [] \<and>
          (\<forall>p \<in> set [pg]. \<exists>c. graphql net token owner c = Inr (Some p)) \<and>
          add_nodes xr xl (concat (map nodes [pg])) totals = Inr T"
        by auto
      then show ?thesis by (rule exI)
    next
      case True
      with r have "fetch_all' net token owner xr xl (endCursor pg) totals1 = Some (Inr T)"
        by simp
      from "1"(1) [OF this] obtain pages
        where p: "\<forall>p \<in> set pages. \<exists>c. graphql net token owner c = Inr (Some p)"
          and n: "add_nodes xr xl (concat (map nodes pages)) totals1 = Inr T"
        by blast
      from g a p n have "pg # pages \<noteq> [] \<and>
          (\<forall>p \<in> set (pg # pages). \<exists>c. graphql net token owner c = Inr (Some p)) \<and>
          add_nodes xr xl (concat (map nodes (pg # pages))) totals = Inr T"
        by (auto simp: add_nodes_append)
      then show ?thesis by (rule exI)
    qed
  qed
qed

theorem fetch_all_pages_witness:
  "\<exists>pages :: page list. pages \<noteq> [] \<and>
     add_nodes {} {} (concat (map nodes pages)) [] = Inr [(ascii ''A'', 3)]"
proof -
  define pg where "pg = \<lparr>nodes = [\<lparr>repo_name = Val (ascii ''r''), isArchived = Val False,
                 languages = Val (Val [\<lparr>node_name = ascii ''A'', edge_size = 3\<rparr>])\<rparr>],
              hasNextPage = False, endCursor = None\<rparr>"
  define net :: network where "net = (\<lambda>token login cursor.
     Inr \<lparr>payload_errors = None, payload_data = Some (Some pg)\<rparr>)"
  have g: "graphql net (ascii ''t'') (ascii ''u'') None = Inr (Some pg)"
    unfolding net_def by (simp add: graphql_def graphql_result_def)
  have h: "\<not> hasNextPage pg" by (simp add: pg_def)
  have a: "add_nodes {} {} (nodes pg) [] = Inr [(ascii ''A'', 3)]"
    unfolding pg_def by (simp add: add_repo_def skipped_def repo_edges_def ascii_def)
  have "fetch_all net (ascii ''t'') (ascii ''u'') {} {} None [] =
        Some (Inr [(ascii ''A'', 3)])"
    unfolding a [symmetric] by (rule fetch_all_last_page [OF g h])
  from fetch_all_pages [OF this, rule_format, OF refl]
  have "\<exists>pages. pages \<noteq> [] \<and>
          (\<forall>pg\<in>set pages. \<exists>c. graphql net (ascii ''t'') (ascii ''u'') c = Inr (Some pg)) \<and>
          add_nodes {} {} (concat (map nodes pages)) [] = Inr [(ascii ''A'', 3)]" .
  then obtain pages where p: "pages \<noteq> []"
      "\<forall>pg\<in>set pages. \<exists>c. graphql net (ascii ''t'') (ascii ''u'') c = Inr (Some pg)"
      "add_nodes {} {} (concat (map nodes pages)) [] = Inr [(ascii ''A'', 3)]"
    by (elim exE conjE) (rule that)
  from p(1) p(3) have "pages \<noteq> [] \<and>
     add_nodes {} {} (concat (map nodes pages)) [] = Inr [(ascii ''A'', 3)]" by (rule conjI)
  then show ?thesis by (rule exI)
qed

section \<open>Properties of the renderers\<close>

subsection \<open>Bounds on the rounding\<close>

lemma pow2_pos: "0 < pow2 e"
  by (simp add: pow2_def)



lemma round_half_even_nonneg: "0 \<le> x \<Longrightarrow> 0 \<le> round_half_even x"
proof -
  assume "0 \<le> x"
  then have "0 \<le> \<lfloor>x\<rfloor>" by simp
  moreover have "round_half_even x = \<lfloor>x\<rfloor> \<or> round_half_even x = \<lfloor>x\<rfloor> + 1"
    by (simp add: round_half_even_def Let_def)
  ultimately show ?thesis by auto
qed

lemma round_half_even_zero: "round_half_even 0 = 0"
  by (simp add: round_half_even_def)


subsection \<open>The rounding is to a nearest binary64 number\<close>

text \<open>
  \<open>ilog2\<close> is the binary exponent of its argument, \<open>round_half_even\<close> is within one half
  of its argument, and so \<open>round_binary64\<close> returns a multiple of the unit in the last
  place with a significand of at most 53 bits, within half a unit of its argument.
\<close>

lemma pow2_powi: "pow2 e = 2 powi e"
proof (cases "0 \<le> e")
  case True
  then show ?thesis by (simp add: pow2_def power_int_def)
next
  case False
  have "inverse (2::rat) ^ nat (- e) = 1 / 2 ^ nat (- e)"
    by (simp add: power_one_over [symmetric])
  with False show ?thesis by (simp only: pow2_def power_int_def if_False)
qed

lemma pow2_add: "pow2 (a + b) = pow2 a * pow2 b"
  by (simp only: pow2_powi) (simp add: power_int_add)

lemma pow2_nat: "pow2 (int k) = 2 ^ k"
  by (simp add: pow2_def)

lemma pow2_neg_nat: "pow2 (- int k) = 1 / 2 ^ k"
  by (cases "k = 0") (simp_all add: pow2_def)

lemma pow2_mono: "a \<le> b \<Longrightarrow> pow2 a \<le> pow2 b"
proof -
  assume "a \<le> b"
  then obtain k where b: "b = a + int k" by (metis zle_iff_zadd)
  have "(1::rat) \<le> 2 ^ k" by simp
  then have "pow2 a * 1 \<le> pow2 a * 2 ^ k"
    using pow2_pos [of a] by (intro mult_left_mono) simp_all
  then show ?thesis by (simp add: b pow2_add pow2_nat)
qed

lemma round_half_even_nearest: "\<bar>of_int (round_half_even x) - x\<bar> \<le> 1 / 2"
proof -
  define d where "d = x - of_int \<lfloor>x\<rfloor>"
  have d: "0 \<le> d" "d < 1" unfolding d_def by linarith+
  have x: "x = of_int \<lfloor>x\<rfloor> + d" by (simp add: d_def)
  show ?thesis
  proof (cases "d < 1 / 2")
    case True
    then have "round_half_even x = \<lfloor>x\<rfloor>" by (simp add: round_half_even_def d_def)
    with d True show ?thesis by (simp add: d_def)
  next
    case False
    show ?thesis
    proof (cases "1 / 2 < d")
      case True
      with False have "round_half_even x = \<lfloor>x\<rfloor> + 1"
        by (simp add: round_half_even_def d_def)
      then have "of_int (round_half_even x) - x = 1 - d" by (simp add: d_def)
      with d True show ?thesis by simp
    next
      case F2: False
      with False have h: "d = 1 / 2" by simp
      have "round_half_even x = \<lfloor>x\<rfloor> \<or> round_half_even x = \<lfloor>x\<rfloor> + 1"
        by (simp add: round_half_even_def Let_def)
      then have "of_int (round_half_even x) - x = - d \<or> of_int (round_half_even x) - x = 1 - d"
        by (auto simp: d_def)
      with h show ?thesis by auto
    qed
  qed
qed

lemma ilog2_bounds:
  assumes "0 < q"
  shows "pow2 (ilog2 q) \<le> q \<and> q < pow2 (ilog2 q + 1)"
proof (cases "1 \<le> q")
  case True
  define n where "n = nat \<lfloor>q\<rfloor>"
  define k where "k = floorlog 2 n"
  have n1: "1 \<le> \<lfloor>q\<rfloor>" using True by simp
  then have np: "0 < n" by (simp add: n_def)
  from floorlog_bounds [OF np, of 2] have b: "2 ^ (k - 1) \<le> n" "n < 2 ^ k"
    by (simp_all add: k_def)
  have kp: "0 < k" using np by (simp add: k_def floorlog_def)
  have i: "ilog2 q = int (k - 1)" using True kp by (simp add: ilog2_def n_def k_def)
  have nq: "of_nat n \<le> q" "q < of_nat n + 1"
    using n1 by (simp_all add: n_def) linarith+
  have "(2::rat) ^ (k - 1) \<le> of_nat n" using b(1) by (metis of_nat_le_iff of_nat_numeral of_nat_power)
  then have "(2::rat) ^ (k - 1) \<le> q" using nq(1) by (rule order_trans)
  then have lo: "pow2 (ilog2 q) \<le> q" by (simp only: i pow2_nat)
  have "n + 1 \<le> 2 ^ k" using b(2) by simp
  then have "(of_nat (n + 1) :: rat) \<le> of_nat (2 ^ k)" by (simp only: of_nat_le_iff)
  then have "(of_nat n :: rat) + 1 \<le> 2 ^ k" by simp
  with nq(2) have "q < 2 ^ k" by simp
  moreover have "ilog2 q + 1 = int k" using i kp by simp
  ultimately have "q < pow2 (ilog2 q + 1)" by (simp add: pow2_nat)
  with lo show ?thesis by simp
next
  case False
  then have q1: "q < 1" by simp
  define c where "c = \<lceil>1 / q\<rceil>"
  define n where "n = nat (c - 1)"
  define k where "k = floorlog 2 n"
  have "1 < 1 / q" using assms q1 by simp
  then have c2: "2 \<le> c" unfolding c_def by linarith
  then have np: "0 < n" by (simp add: n_def)
  from floorlog_bounds [OF np, of 2] have b: "2 ^ (k - 1) \<le> n" "n < 2 ^ k"
    by (simp_all add: k_def)
  have kp: "0 < k" using np by (simp add: k_def floorlog_def)
  have i: "ilog2 q = - int k" using False by (simp add: ilog2_def n_def k_def c_def)
  have cq: "1 / q \<le> of_int c" "of_int c - 1 < 1 / q"
    unfolding c_def by linarith+
  have nc: "(of_nat n :: rat) = of_int c - 1" using c2 by (simp add: n_def)
  have "n + 1 \<le> 2 ^ k" using b(2) by simp
  then have "(of_nat (n + 1) :: rat) \<le> of_nat (2 ^ k)" by (simp only: of_nat_le_iff)
  then have "(of_int c :: rat) \<le> 2 ^ k" using nc by simp
  with cq(1) have "1 / q \<le> 2 ^ k" by (rule order_trans)
  then have "1 \<le> 2 ^ k * q" using assms by (simp add: pos_divide_le_eq)
  then have lo: "1 / 2 ^ k \<le> q" by (simp add: pos_divide_le_eq mult.commute)
  have "(2::rat) ^ (k - 1) \<le> of_nat n" using b(1) by (metis of_nat_le_iff of_nat_numeral of_nat_power)
  then have "(2::rat) ^ (k - 1) \<le> of_int c - 1" by (simp only: nc)
  then have "2 ^ (k - 1) < 1 / q" using cq(2) by (rule le_less_trans)
  then have "2 ^ (k - 1) * q < 1" using assms by (simp add: pos_less_divide_eq)
  then have hi: "q < 1 / 2 ^ (k - 1)" by (simp add: pos_less_divide_eq mult.commute)
  have "ilog2 q + 1 = - int (k - 1)" using i kp by simp
  with hi have "q < pow2 (ilog2 q + 1)" by (simp only: pow2_neg_nat)
  moreover have "pow2 (ilog2 q) \<le> q" using lo by (simp only: i pow2_neg_nat)
  ultimately show ?thesis by simp
qed

lemma round_binary64_nearest:
  assumes "0 < q" and "round_binary64 q = Some r"
    and "e = max (ilog2 q) (- 1022)"
  shows "\<exists>n. r = of_int n * pow2 (e - 52) \<and> 0 \<le> n \<and> n \<le> 2 ^ 53 \<and>
             \<bar>r - q\<bar> \<le> pow2 (e - 52) / 2"
proof -
  define ulp where "ulp = pow2 (e - 52)"
  define n where "n = round_half_even (q / ulp)"
  have u0: "0 < ulp" by (simp add: ulp_def pow2_pos)
  from assms(1,2) have r: "r = of_int n * ulp"
    by (auto simp: round_binary64_def Let_def n_def ulp_def assms(3) split: if_splits)
  have "0 \<le> q / ulp" using assms(1) u0 by simp
  then have n0: "0 \<le> n" unfolding n_def by (rule round_half_even_nonneg)
  have near: "\<bar>of_int n - q / ulp\<bar> \<le> 1 / 2"
    unfolding n_def by (rule round_half_even_nearest)
  have "r - q = (of_int n - q / ulp) * ulp"
    using u0 by (simp add: r field_simps)
  then have "\<bar>r - q\<bar> = \<bar>of_int n - q / ulp\<bar> * ulp"
    using u0 by (simp add: abs_mult)
  also have "\<dots> \<le> 1 / 2 * ulp"
    using near u0 by (intro mult_right_mono) simp_all
  finally have err: "\<bar>r - q\<bar> \<le> ulp / 2" by simp
  have "ilog2 q + 1 \<le> e + 1" by (simp add: assms(3))
  then have "pow2 (ilog2 q + 1) \<le> pow2 (e + 1)" by (rule pow2_mono)
  with ilog2_bounds [OF assms(1)] have "q < pow2 (e + 1)" by simp
  also have "pow2 (e + 1) = pow2 (e - 52) * pow2 53"
    using pow2_add [of "e - 52" 53] by (simp add: add.commute)
  finally have "q / ulp < pow2 53"
    using u0 by (simp add: ulp_def pos_divide_less_eq mult.commute)
  then have "q / ulp < 2 ^ 53" by (simp add: pow2_def)
  with near have "(of_int n :: rat) < 2 ^ 53 + 1" by linarith
  then have "(of_int n :: rat) < of_int (2 ^ 53 + 1)" by simp
  then have "n < 2 ^ 53 + 1" by (simp only: of_int_less_iff)
  then have n53: "n \<le> 2 ^ 53" by simp
  from r n0 n53 err show ?thesis
    unfolding ulp_def by blast
qed

subsection \<open>Shares of a total do not overflow\<close>





subsection \<open>Evaluation on numerals\<close>


lemma decimal_eval:
  "n < 10 \<Longrightarrow> decimal n = [48 + n]"
  "\<not> n < 10 \<Longrightarrow> decimal n = decimal (n div 10) @ [48 + n mod 10]"
  by (subst decimal.simps, simp)+




subsection \<open>A total of zero\<close>

lemma round_binary64_zero: "round_binary64 0 = Some 0"
  by (simp add: round_binary64_def)

lemma pct_str_zero: "pct_str (Finite False 0) = ascii ''0.0%''"
  by (simp add: pct_str_def round_binary64_zero round_half_even_zero zero_pad_def
        decimal_eval ascii_def)

lemma bar_zero: "bar (Finite False 0) 18 = Inr (replicate 18 32)"
  by (simp add: bar_def round_binary64_zero round_half_even_zero)

lemma width_zero: "format_f 2 (float_max0 (float_mul (Finite False 0) 482)) = ascii ''0.00''"
  by (simp add: round_binary64_zero round_half_even_zero zero_pad_def decimal_eval ascii_def)

lemma table_row_zero: "table_row name (Finite False 0) = Inr (zero_row name)"
  by (simp add: table_row_def bar_zero pct_str_zero zero_row_def ascii_def)

lemma table_rows_zero: "table_rows items 0 = Inr (map (\<lambda>(name, size'). zero_row name) items)"
  by (induction items) (auto simp: pct_def table_row_zero)

lemma svg_rows_zero:
  "svg_rows pal i items 0 =
     Inr (map (\<lambda>(j, name, size'). svg_row pal j name (Finite False 0)) (enumerate i items))"
  by (induction items arbitrary: i) (auto simp: pct_def)

text \<open>
  Claim C7. When the grand total is zero, \<open>pct\<close> returns \<open>0.0\<close> for every size without
  dividing, the percentage is rendered as \<open>0.0%\<close> and the bar as 18 spaces, and the table
  and the image are produced without an exception for every list of language and size
  pairs: each table row is the \<open>zero_row\<close> of its language, each image row is the row of
  the share \<open>0.0\<close>.
\<close>

theorem zero_total_renders:
  assumes "total_of items = 0"
  shows "(\<forall>(name, size') \<in> set items. pct size' (total_of items) = Inr (Finite False 0)) \<and>
         pct_str (Finite False 0) = ascii ''0.0%'' \<and>
         bar (Finite False 0) 18 = Inr (replicate 18 32) \<and>
         make_table_lines items (total_of items) =
           Inr (table_header @ map (\<lambda>(name, size'). zero_row name) (take MAX_ROWS items)) \<and>
         make_svg_parts items (total_of items) dark =
           Inr (svg_header (palette_of dark) (46 + min MAX_ROWS (length items) * 26 + 18) @
                concat (map (\<lambda>(j, name, size'). svg_row (palette_of dark) j name (Finite False 0))
                          (enumerate 0 (take MAX_ROWS items))) @
                [ascii ''</svg>''])"
proof -
  have "take (min MAX_ROWS (length items)) items = take MAX_ROWS items"
    by (simp add: min_def)
  with assms show ?thesis
    by (auto simp: pct_def pct_str_zero bar_zero make_table_lines_def table_rows_zero
          make_svg_parts_def svg_rows_zero Let_def)
qed

theorem zero_total_renders_witness:
  "make_table_lines [(ascii ''A'', 0), (ascii ''B'', 0)] 0 =
     Inr (table_header @ [zero_row (ascii ''A''), zero_row (ascii ''B'')])"
proof -
  have "total_of [(ascii ''A'', 0), (ascii ''B'', 0)] = 0"
    by (simp add: total_of_def)
  from zero_total_renders [OF this, of False] show ?thesis
    by (simp add: total_of_def MAX_ROWS_def)
qed

subsection \<open>The example of the specification\<close>


subsection \<open>Truncation\<close>












end
